theory Spec2Isabelle
  imports Main "HOL-Library.Multiset" "HOL-Library.AList"
begin

section \<open>Data model of the workflow editor\<close>

text \<open>
  The node kinds that \<^verbatim>\<open>Flow.tsx\<close> reads from \<^verbatim>\<open>NodeType\<close>. A node carries an id, a
  kind and the kind-specific data fields (each may be absent, as in the TypeScript type);
  an edge carries an id and the ids of its two end points. JavaScript strings are
  modelled as \<^typ>\<open>string\<close>, with characters standing for code units below 256.
\<close>

datatype NodeType = CLI | LLM | PREVIEW | INPUT

record NodeData =
  label :: string
  command :: "string option"
  prompt :: "string option"
  content :: "string option"

record WorkflowNode =
  node_id :: string
  node_type :: NodeType
  node_data :: NodeData

record Edge =
  edge_id :: string
  source :: string
  target :: string

text \<open>
  A JavaScript \<^verbatim>\<open>Map\<close> keeps its keys in insertion order: an association list, read
  with \<^const>\<open>map_of\<close> and written with \<^const>\<open>AList.update\<close> (which replaces the value
  of a present key in place and appends an absent one).
\<close>

type_synonym ('k, 'v) jsMap = "('k \<times> 'v) list"

text \<open>\<^verbatim>\<open>m.get(k) || 0\<close> on a map of numbers: an absent key and the value 0 both give 0.\<close>

definition getOr0 :: "('k, int) jsMap \<Rightarrow> 'k \<Rightarrow> int" where
  "getOr0 m k = (case map_of m k of None \<Rightarrow> 0 | Some v \<Rightarrow> v)"

text \<open>\<^verbatim>\<open>Array.prototype.findIndex\<close>: the position of the first match, or -1.\<close>

fun findIndex :: "('a \<Rightarrow> bool) \<Rightarrow> 'a list \<Rightarrow> int" where
  "findIndex P [] = - 1"
| "findIndex P (x # xs) =
     (if P x then 0 else (let i = findIndex P xs in if i = - 1 then - 1 else i + 1))"

text \<open>
  \<^verbatim>\<open>Array.prototype.sort\<close> with a comparator. ECMAScript requires the sort to be stable;
  the model is the insertion sort that keeps elements comparing equal in their order.
  Which sort the runtime really uses is left open in the definitions below that take the
  sort as a parameter.
\<close>

fun insertBy :: "('a \<Rightarrow> 'a \<Rightarrow> int) \<Rightarrow> 'a \<Rightarrow> 'a list \<Rightarrow> 'a list" where
  "insertBy cmp x [] = [x]"
| "insertBy cmp x (y # ys) = (if cmp x y \<le> 0 then x # y # ys else y # insertBy cmp x ys)"

definition arraySort :: "('a \<Rightarrow> 'a \<Rightarrow> int) \<Rightarrow> 'a list \<Rightarrow> 'a list" where
  "arraySort cmp xs = foldr (insertBy cmp) xs []"

section \<open>The topological sequencer (\<^verbatim>\<open>topologicalEdgeSort\<close> in \<^verbatim>\<open>Flow.tsx\<close>)\<close>

text \<open>The two initialising loops: one entry per node, then one pass over the edges.\<close>

definition initStep ::
  "WorkflowNode \<Rightarrow> (string, string list) jsMap \<times> (string, int) jsMap
     \<Rightarrow> (string, string list) jsMap \<times> (string, int) jsMap" where
  "initStep node = (\<lambda>(graph, inDegree).
     (AList.update (node_id node) [] graph, AList.update (node_id node) 0 inDegree))"

definition buildStep ::
  "Edge \<Rightarrow> (string, string list) jsMap \<times> (string, int) jsMap
     \<Rightarrow> (string, string list) jsMap \<times> (string, int) jsMap" where
  "buildStep edge = (\<lambda>(graph, inDegree).
     ((case map_of graph (source edge) of
         None \<Rightarrow> graph
       | Some targets \<Rightarrow> AList.update (source edge) (targets @ [target edge]) graph),
      AList.update (target edge) (getOr0 inDegree (target edge) + 1) inDegree))"

definition buildMaps ::
  "WorkflowNode list \<Rightarrow> Edge list \<Rightarrow> (string, string list) jsMap \<times> (string, int) jsMap" where
  "buildMaps nodes edges = fold buildStep edges (fold initStep nodes ([], []))"

text \<open>
  The ready queue: the nodes whose stored in-degree is 0, sorted by the comparator that
  subtracts the \<^verbatim>\<open>findIndex\<close> positions of the first outgoing edges, mapped to ids.
\<close>

definition firstEdgeCompare :: "Edge list \<Rightarrow> WorkflowNode \<Rightarrow> WorkflowNode \<Rightarrow> int" where
  "firstEdgeCompare edges a b =
     (let aEdgeIndex = findIndex (\<lambda>edge. source edge = node_id a) edges;
          bEdgeIndex = findIndex (\<lambda>edge. source edge = node_id b) edges
      in aEdgeIndex - bEdgeIndex)"

definition readyQueueBy ::
  "((WorkflowNode \<Rightarrow> WorkflowNode \<Rightarrow> int) \<Rightarrow> WorkflowNode list \<Rightarrow> WorkflowNode list)
     \<Rightarrow> WorkflowNode list \<Rightarrow> Edge list \<Rightarrow> string list" where
  "readyQueueBy srt nodes edges =
     (let inDegree = snd (buildMaps nodes edges);
          sourceNodes = filter (\<lambda>node. map_of inDegree (node_id node) = Some 0) nodes;
          sortedSourceNodes = srt (firstEdgeCompare edges) sourceNodes
      in map node_id sortedSourceNodes)"

text \<open>
  The body of the inner \<^verbatim>\<open>for\<close> loop: decrement the neighbour's in-degree, and enqueue
  the neighbour when the stored value is now exactly 0.
\<close>

definition relax ::
  "string \<Rightarrow> (string, int) jsMap \<times> string list \<Rightarrow> (string, int) jsMap \<times> string list" where
  "relax neighbor = (\<lambda>(inDegree, queue).
     (let inDegree' = AList.update neighbor (getOr0 inDegree neighbor - 1) inDegree
      in (inDegree', if map_of inDegree' neighbor = Some 0 then queue @ [neighbor] else queue)))"

text \<open>
  The \<^verbatim>\<open>while (queue.length > 0)\<close> loop. Termination is proved below with the measure
  \<open>length queue + positives inDegree\<close>.
\<close>

definition positives :: "(string, int) jsMap \<Rightarrow> nat" where
  "positives inDegree = length (filter (\<lambda>kv. 0 < snd kv) inDegree)"

function kahn_loop ::
  "(string, string list) jsMap \<Rightarrow> (string, int) jsMap \<Rightarrow> string list \<Rightarrow> string list
     \<Rightarrow> string list" where
  "kahn_loop graph inDegree [] result = result"
| "kahn_loop graph inDegree (nodeId # queue) result =
     (let (inDegree', queue') =
            (case map_of graph nodeId of
               None \<Rightarrow> (inDegree, queue)
             | Some neighbors \<Rightarrow> fold relax neighbors (inDegree, queue))
      in kahn_loop graph inDegree' queue' (result @ [nodeId]))"
  by pat_completeness auto

text \<open>\<^verbatim>\<open>result.map(id => nodes.find(node => node.id === id)!).filter(Boolean)\<close>\<close>

definition lookupNodes :: "WorkflowNode list \<Rightarrow> string list \<Rightarrow> WorkflowNode list" where
  "lookupNodes nodes result =
     map the (filter (\<lambda>found. found \<noteq> None)
                (map (\<lambda>i. find (\<lambda>node. node_id node = i) nodes) result))"

text \<open>The whole function, first with the sort as a parameter, then with the stable sort.\<close>

definition topologicalEdgeSortBy ::
  "((WorkflowNode \<Rightarrow> WorkflowNode \<Rightarrow> int) \<Rightarrow> WorkflowNode list \<Rightarrow> WorkflowNode list)
     \<Rightarrow> WorkflowNode list \<Rightarrow> Edge list \<Rightarrow> WorkflowNode list" where
  "topologicalEdgeSortBy srt nodes edges =
     (let (graph, inDegree) = buildMaps nodes edges;
          queue = readyQueueBy srt nodes edges;
          result = kahn_loop graph inDegree queue []
      in lookupNodes nodes result)"

definition topologicalEdgeSort :: "WorkflowNode list \<Rightarrow> Edge list \<Rightarrow> WorkflowNode list" where
  "topologicalEdgeSort = topologicalEdgeSortBy arraySort"

section \<open>Edge sequence numbers (\<^verbatim>\<open>updateEdgeOrder\<close>, \<^verbatim>\<open>edgesWithOrder\<close>)\<close>

text \<open>
  \<^verbatim>\<open>orderMap.set(edge.id, sequentialNumber++)\<close> for every outgoing edge of every node
  of the computed order; the state of the two nested loops is the map and the counter.
\<close>

definition numberEdge :: "Edge \<Rightarrow> (string, int) jsMap \<times> int \<Rightarrow> (string, int) jsMap \<times> int" where
  "numberEdge edge = (\<lambda>(orderMap, sequentialNumber).
     (AList.update (edge_id edge) sequentialNumber orderMap, sequentialNumber + 1))"

definition numberNode ::
  "Edge list \<Rightarrow> WorkflowNode \<Rightarrow> (string, int) jsMap \<times> int \<Rightarrow> (string, int) jsMap \<times> int" where
  "numberNode edges node = (\<lambda>state.
     (let sourceEdges = filter (\<lambda>edge. source edge = node_id node) edges
      in fold numberEdge sourceEdges state))"

definition updateEdgeOrderBy ::
  "((WorkflowNode \<Rightarrow> WorkflowNode \<Rightarrow> int) \<Rightarrow> WorkflowNode list \<Rightarrow> WorkflowNode list)
     \<Rightarrow> WorkflowNode list \<Rightarrow> Edge list \<Rightarrow> (string, int) jsMap" where
  "updateEdgeOrderBy srt nodes edges =
     (let sortedNodes = topologicalEdgeSortBy srt nodes edges
      in fst (fold (numberNode edges) sortedNodes ([], 1)))"

definition updateEdgeOrder :: "WorkflowNode list \<Rightarrow> Edge list \<Rightarrow> (string, int) jsMap" where
  "updateEdgeOrder = updateEdgeOrderBy arraySort"

text \<open>
  The edges handed to the renderer: each edge with the type tag and
  \<^verbatim>\<open>orderNumber: edgeOrder.get(edge.id) || 0\<close>.
\<close>

record OrderedEdge = Edge +
  edge_type :: string
  orderNumber :: int

definition edgesWithOrder :: "Edge list \<Rightarrow> (string, int) jsMap \<Rightarrow> OrderedEdge list" where
  "edgesWithOrder edges edgeOrder =
     map (\<lambda>edge. \<lparr>edge_id = edge_id edge, source = source edge, target = target edge,
                   edge_type = ''ordered-edge'',
                   orderNumber = getOr0 edgeOrder (edge_id edge)\<rparr>) edges"

section \<open>Validation before a run (\<^verbatim>\<open>onExecute\<close>)\<close>

text \<open>
  The messages the webview sends to the extension host. The payload of a message and its
  two lists are optional, as the handler's \<^verbatim>\<open>message.data?.nodes\<close> shows.
\<close>

record WorkflowData =
  data_nodes :: "WorkflowNode list option"
  data_edges :: "Edge list option"

datatype WorkflowToExtension =
    save_workflow "WorkflowData option"
  | load_workflow
  | execute_workflow "WorkflowData option"
  | abort_workflow

text \<open>
  \<^verbatim>\<open>String.prototype.trim\<close> removes white space and line terminators at both ends;
  below code unit 256 these are tab, line feed, vertical tab, form feed, carriage return,
  space and no-break space.
\<close>

definition isWhitespace :: "char \<Rightarrow> bool" where
  "isWhitespace c \<longleftrightarrow> (of_char c :: nat) \<in> {9, 10, 11, 12, 13, 32, 160}"

definition trim :: "string \<Rightarrow> string" where
  "trim s = rev (dropWhile isWhitespace (rev (dropWhile isWhitespace s)))"

text \<open>
  The predicate of \<^verbatim>\<open>nodes.filter\<close> in \<^verbatim>\<open>onExecute\<close>: only a node of type
  \<^verbatim>\<open>NodeType.LLM\<close> is examined; every other node passes.
\<close>

definition missingPrompt :: "WorkflowNode \<Rightarrow> bool" where
  "missingPrompt node \<longleftrightarrow>
     (if node_type node = LLM
      then (case prompt (node_data node) of
              None \<Rightarrow> True
            | Some p \<Rightarrow> p = [] \<or> trim p = [])
      else False)"

text \<open>
  The part of the component state that \<^verbatim>\<open>onExecute\<close> reads and writes;
  \<open>abortController\<close> records whether a controller is held, \<open>posted\<close> the messages given
  to \<^verbatim>\<open>vscodeAPI.postMessage\<close>.
\<close>

record FlowState =
  flow_nodes :: "WorkflowNode list"
  flow_edges :: "Edge list"
  nodeErrors :: "(string, string) jsMap"
  abortController :: bool
  posted :: "WorkflowToExtension list"

definition recordError :: "WorkflowNode \<Rightarrow> (string, string) jsMap \<Rightarrow> (string, string) jsMap" where
  "recordError node newErrors =
     (let errorMessage =
            (if node_type node = CLI then ''Command field is required''
             else ''Prompt field is required'')
      in AList.update (node_id node) errorMessage newErrors)"

definition onExecute :: "FlowState \<Rightarrow> FlowState" where
  "onExecute s =
     (let invalidNodes = filter missingPrompt (flow_nodes s)
      in if 0 < length invalidNodes
         then s\<lparr>nodeErrors := fold recordError invalidNodes []\<rparr>
         else s\<lparr>nodeErrors := [],
                abortController := True,
                posted := posted s @ [execute_workflow
                   (Some \<lparr>data_nodes = Some (flow_nodes s), data_edges = Some (flow_edges s)\<rparr>)]\<rparr>)"

section \<open>The extension host's message handler (\<^verbatim>\<open>registerWorkflowCommands\<close>)\<close>

text \<open>
  The handler's only variable is \<^verbatim>\<open>activeAbortController\<close>. Controllers are numbered
  in the order of their creation; \<open>abortCalls\<close> logs every call of \<^verbatim>\<open>abort()\<close> by
  controller, and \<open>pendingRuns\<close> lists the controllers of the invocations of
  \<^verbatim>\<open>executeWorkflow\<close> that have been started and have not settled.
\<close>

record HostState =
  activeAbortController :: "nat option"
  nextController :: nat
  abortCalls :: "nat list"
  pendingRuns :: "nat list"

definition initialHost :: HostState where
  "initialHost = \<lparr>activeAbortController = None, nextController = 0, abortCalls = [],
                  pendingRuns = []\<rparr>"

text \<open>\<^verbatim>\<open>message.data?.nodes && message.data?.edges\<close>: an array, even empty, is truthy.\<close>

definition hasGraph :: "WorkflowData option \<Rightarrow> bool" where
  "hasGraph d \<longleftrightarrow> (case d of None \<Rightarrow> False
                     | Some w \<Rightarrow> data_nodes w \<noteq> None \<and> data_edges w \<noteq> None)"

text \<open>
  One message, up to the point where the handler awaits. Saving and loading do not touch
  the controller.
\<close>

fun onDidReceiveMessage :: "WorkflowToExtension \<Rightarrow> HostState \<Rightarrow> HostState" where
  "onDidReceiveMessage (save_workflow d) s = s"
| "onDidReceiveMessage load_workflow s = s"
| "onDidReceiveMessage (execute_workflow d) s =
     (if hasGraph d
      then s\<lparr>activeAbortController := Some (nextController s),
             nextController := nextController s + 1,
             pendingRuns := pendingRuns s @ [nextController s]\<rparr>
      else s)"
| "onDidReceiveMessage abort_workflow s =
     (case activeAbortController s of
        None \<Rightarrow> s
      | Some c \<Rightarrow> s\<lparr>abortCalls := abortCalls s @ [c], activeAbortController := None\<rparr>)"

text \<open>
  Modelled from the spec: \<^verbatim>\<open>executeWorkflow\<close> (\<^verbatim>\<open>workflow-executor.ts\<close>) is not among the
  sources. A run is a sequential task that suspends at its node executors, so the
  handler's \<^verbatim>\<open>await\<close> hands control back to the event loop; when the run with
  controller \<open>c\<close> settles, the handler's \<^verbatim>\<open>finally\<close> block runs.
\<close>

definition runSettled :: "nat \<Rightarrow> HostState \<Rightarrow> HostState" where
  "runSettled c s = s\<lparr>pendingRuns := remove1 c (pendingRuns s), activeAbortController := None\<rparr>"

text \<open>The clean-up callback of \<^verbatim>\<open>panel.onDidDispose\<close>.\<close>

definition onDidDispose :: "HostState \<Rightarrow> HostState" where
  "onDidDispose s =
     (case activeAbortController s of
        None \<Rightarrow> s
      | Some c \<Rightarrow> s\<lparr>abortCalls := abortCalls s @ [c], activeAbortController := None\<rparr>)"

text \<open>The states the host can be in: any interleaving of messages, settled runs and disposal.\<close>

inductive reachable :: "HostState \<Rightarrow> bool" where
  start: "reachable initialHost"
| message: "reachable s \<Longrightarrow> reachable (onDidReceiveMessage m s)"
| settled: "reachable s \<Longrightarrow> c \<in> set (pendingRuns s) \<Longrightarrow> reachable (runSettled c s)"
| disposed: "reachable s \<Longrightarrow> reachable (onDidDispose s)"

text \<open>
  The histories in which the webview keeps to one run at a time: an
  \<^verbatim>\<open>execute_workflow\<close> message is only sent when no run is pending.
\<close>

fun isExecute :: "WorkflowToExtension \<Rightarrow> bool" where
  "isExecute (execute_workflow d) = True"
| "isExecute m = False"

inductive reachableSingle :: "HostState \<Rightarrow> bool" where
  single_start: "reachableSingle initialHost"
| single_message: "reachableSingle s \<Longrightarrow> isExecute m \<longrightarrow> pendingRuns s = [] \<Longrightarrow>
     reachableSingle (onDidReceiveMessage m s)"
| single_settled: "reachableSingle s \<Longrightarrow> c \<in> set (pendingRuns s) \<Longrightarrow>
     reachableSingle (runSettled c s)"

section \<open>Notions used to state the properties\<close>

text \<open>
  The ids of a node list, the dependency relation of an edge list, and the graphs the data
  model calls valid (distinct node ids, no dangling end point) and acyclic.
\<close>

definition nodeIds :: "WorkflowNode list \<Rightarrow> string set" where
  "nodeIds nodes = node_id ` set nodes"

definition depRel :: "Edge list \<Rightarrow> (string \<times> string) set" where
  "depRel edges = (\<lambda>e. (source e, target e)) ` set edges"

definition validGraph :: "WorkflowNode list \<Rightarrow> Edge list \<Rightarrow> bool" where
  "validGraph nodes edges \<longleftrightarrow>
     distinct (map node_id nodes) \<and>
     (\<forall>e\<in>set edges. source e \<in> nodeIds nodes \<and> target e \<in> nodeIds nodes)"

definition acyclicGraph :: "WorkflowNode list \<Rightarrow> Edge list \<Rightarrow> bool" where
  "acyclicGraph nodes edges \<longleftrightarrow> validGraph nodes edges \<and> acyclic (depRel edges)"

text \<open>
  The quantities the loop invariant of the sequencer speaks about: the targets of a node's
  outgoing edges in edge-list order, the number of edges into a node whose source has not
  been dequeued yet, and the id list the queue loop returns.
\<close>

definition outTargets :: "Edge list \<Rightarrow> string \<Rightarrow> string list" where
  "outTargets edges s = map target (filter (\<lambda>e. source e = s) edges)"

definition pending :: "WorkflowNode list \<Rightarrow> Edge list \<Rightarrow> string list \<Rightarrow> string \<Rightarrow> nat" where
  "pending nodes edges done t =
     length (filter (\<lambda>e. target e = t \<and> \<not> (source e \<in> set done \<and> source e \<in> nodeIds nodes)) edges)"

definition kahn_inv ::
  "WorkflowNode list \<Rightarrow> Edge list \<Rightarrow> (string, string list) jsMap \<Rightarrow> (string, int) jsMap
     \<Rightarrow> string list \<Rightarrow> string list \<Rightarrow> bool" where
  "kahn_inv nodes edges graph inDegree queue result \<longleftrightarrow>
     (\<forall>s. map_of graph s = (if s \<in> nodeIds nodes then Some (outTargets edges s) else None)) \<and>
     (\<forall>t. map_of inDegree t =
        (if t \<in> nodeIds nodes \<union> target ` set edges
         then Some (int (pending nodes edges result t)) else None)) \<and>
     distinct (result @ queue) \<and>
     set (result @ queue) = {t. map_of inDegree t = Some 0} \<and>
     (\<forall>e\<in>set edges. target e \<in> set result \<longrightarrow>
        (\<exists>xs ys. result = xs @ target e # ys \<and> source e \<in> set xs))"

definition kahnOrder :: "WorkflowNode list \<Rightarrow> Edge list \<Rightarrow> string list" where
  "kahnOrder nodes edges =
     kahn_loop (fst (buildMaps nodes edges)) (snd (buildMaps nodes edges))
       (readyQueueBy arraySort nodes edges) []"

text \<open>
  The position of a node's first outgoing edge (-1 when it has none), the nodes without
  incoming edge, and the test for an outgoing edge.
\<close>

definition firstOutIndex :: "Edge list \<Rightarrow> WorkflowNode \<Rightarrow> int" where
  "firstOutIndex edges node = findIndex (\<lambda>edge. source edge = node_id node) edges"

definition rootNodes :: "WorkflowNode list \<Rightarrow> Edge list \<Rightarrow> WorkflowNode list" where
  "rootNodes nodes edges = filter (\<lambda>node. node_id node \<notin> target ` set edges) nodes"

definition hasOutgoing :: "Edge list \<Rightarrow> WorkflowNode \<Rightarrow> bool" where
  "hasOutgoing edges node \<longleftrightarrow> node_id node \<in> source ` set edges"

text \<open>
  The ready queue in the words of the specification: the nodes without incoming edge,
  those with an outgoing edge first, by the position of their first outgoing edge, then
  those without outgoing edge in node-list order.
\<close>

definition specReadyQueue :: "WorkflowNode list \<Rightarrow> Edge list \<Rightarrow> string list" where
  "specReadyQueue nodes edges =
     map node_id (sort_key (firstOutIndex edges) (filter (hasOutgoing edges) (rootNodes nodes edges))
                  @ filter (\<lambda>node. \<not> hasOutgoing edges node) (rootNodes nodes edges))"

text \<open>
  What ECMAScript guarantees of \<^verbatim>\<open>Array.prototype.sort\<close> for a comparator that subtracts
  keys: the result is a permutation, ordered by the key, and stable.
\<close>

definition stableSort :: "(('a \<Rightarrow> 'a \<Rightarrow> int) \<Rightarrow> 'a list \<Rightarrow> 'a list) \<Rightarrow> bool" where
  "stableSort srt \<longleftrightarrow>
     (\<forall>(key :: 'a \<Rightarrow> int) xs.
        mset (srt (\<lambda>a b. key a - key b) xs) = mset xs \<and>
        sorted (map key (srt (\<lambda>a b. key a - key b) xs)) \<and>
        (\<forall>k. filter (\<lambda>x. key x = k) (srt (\<lambda>a b. key a - key b) xs) = filter (\<lambda>x. key x = k) xs))"

text \<open>
  The order in which edges are numbered: node by node along the execution order, each
  node's outgoing edges in edge-list order; and the position of an id in an order.
\<close>

definition emissionOrder :: "WorkflowNode list \<Rightarrow> Edge list \<Rightarrow> Edge list" where
  "emissionOrder order edges =
     concat (map (\<lambda>node. filter (\<lambda>edge. source edge = node_id node) edges) order)"

definition sequencedEdges :: "WorkflowNode list \<Rightarrow> Edge list \<Rightarrow> Edge list" where
  "sequencedEdges nodes edges = emissionOrder (topologicalEdgeSort nodes edges) edges"

definition orderIndex :: "WorkflowNode list \<Rightarrow> string \<Rightarrow> int" where
  "orderIndex order i = findIndex (\<lambda>node. node_id node = i) order"

text \<open>
  The invariants of the host's state: in general, and for the histories with one run at
  a time.
\<close>

definition hostInv :: "HostState \<Rightarrow> bool" where
  "hostInv s \<longleftrightarrow>
     (\<forall>c. activeAbortController s = Some c \<longrightarrow> c \<in> set (pendingRuns s) \<and> c \<notin> set (abortCalls s)) \<and>
     (\<forall>c\<in>set (pendingRuns s). c < nextController s) \<and>
     (\<forall>c\<in>set (abortCalls s). c < nextController s) \<and>
     distinct (abortCalls s)"

definition singleInv :: "HostState \<Rightarrow> bool" where
  "singleInv s \<longleftrightarrow>
     pendingRuns s = [] \<or>
     (\<exists>c. pendingRuns s = [c] \<and>
        (activeAbortController s = Some c \<or> c \<in> set (abortCalls s)))"

section \<open>Example inputs\<close>

abbreviation testNode :: "string \<Rightarrow> NodeType \<Rightarrow> WorkflowNode" where
  "testNode i k \<equiv> \<lparr>node_id = i, node_type = k,
      node_data = \<lparr>label = i, command = None, prompt = None, content = None\<rparr>\<rparr>"

abbreviation testEdge :: "string \<Rightarrow> string \<Rightarrow> string \<Rightarrow> Edge" where
  "testEdge i s t \<equiv> \<lparr>edge_id = i, source = s, target = t\<rparr>"

text \<open>The diamond \<open>A \<rightarrow> B, A \<rightarrow> C, B \<rightarrow> D, C \<rightarrow> D\<close>.\<close>

definition diamondNodes :: "WorkflowNode list" where
  "diamondNodes = [testNode ''A'' INPUT, testNode ''B'' CLI, testNode ''C'' LLM, testNode ''D'' PREVIEW]"

definition diamondEdges :: "Edge list" where
  "diamondEdges = [testEdge ''e1'' ''A'' ''B'', testEdge ''e2'' ''A'' ''C'',
                   testEdge ''e3'' ''B'' ''D'', testEdge ''e4'' ''C'' ''D'']"

text \<open>A root \<open>S\<close> feeding the cycle \<open>A \<rightarrow> B \<rightarrow> A\<close>.\<close>

definition cycleNodes :: "WorkflowNode list" where
  "cycleNodes = [testNode ''S'' INPUT, testNode ''A'' CLI, testNode ''B'' CLI]"

definition cycleEdges :: "Edge list" where
  "cycleEdges = [testEdge ''e1'' ''S'' ''A'', testEdge ''e2'' ''A'' ''B'', testEdge ''e3'' ''B'' ''A'']"

text \<open>Two roots, of which only \<open>B\<close>, the first in the node list, has an outgoing edge.\<close>

definition seedNodes :: "WorkflowNode list" where
  "seedNodes = [testNode ''B'' CLI, testNode ''A'' INPUT, testNode ''C'' PREVIEW]"

definition seedEdges :: "Edge list" where
  "seedEdges = [testEdge ''e1'' ''B'' ''C'']"

text \<open>A single Command node with empty command text, and a single Generate node with a blank prompt.\<close>

definition emptyCommandFlow :: FlowState where
  "emptyCommandFlow =
     \<lparr>flow_nodes = [\<lparr>node_id = ''n1'', node_type = CLI,
                      node_data = \<lparr>label = ''Command'', command = Some '''', prompt = None,
                                   content = None\<rparr>\<rparr>],
      flow_edges = [], nodeErrors = [], abortController = False, posted = []\<rparr>"

definition emptyPromptFlow :: FlowState where
  "emptyPromptFlow =
     \<lparr>flow_nodes = [\<lparr>node_id = ''n1'', node_type = LLM,
                      node_data = \<lparr>label = ''Generate'', command = None, prompt = Some '' '',
                                   content = None\<rparr>\<rparr>],
      flow_edges = [], nodeErrors = [], abortController = False, posted = []\<rparr>"

definition someGraph :: "WorkflowData option" where
  "someGraph = Some \<lparr>data_nodes = Some diamondNodes, data_edges = Some diamondEdges\<rparr>"

text \<open>
  Two states of the host in which the run of controller 1 is pending and the run of
  controller 0 has just settled: after two start requests in a row, and after a start
  request, a cancel request and a second start request.
\<close>

definition overlappedHost :: HostState where
  "overlappedHost =
     runSettled 0 (onDidReceiveMessage (execute_workflow someGraph)
       (onDidReceiveMessage (execute_workflow someGraph) initialHost))"

definition restartedHost :: HostState where
  "restartedHost =
     runSettled 0 (onDidReceiveMessage (execute_workflow someGraph)
       (onDidReceiveMessage abort_workflow
         (onDidReceiveMessage (execute_workflow someGraph) initialHost)))"

section \<open>Termination of the queue loop\<close>

text \<open>
  Each iteration removes one id from the queue; an id is enqueued only when its stored
  in-degree drops from 1 to 0, which lowers the number of positive entries by one.
\<close>

lemma positives_update:
  "positives (AList.update k v d) + (if 0 < getOr0 d k then 1 else 0)
     = positives d + (if 0 < v then 1 else 0)"
  by (induction d) (auto simp: positives_def getOr0_def)

lemma relax_measure:
  "relax t (d, q) = (d', q') \<Longrightarrow> length q' + positives d' = length q + positives d"
  using positives_update [of t "getOr0 d t - 1" d]
  by (auto simp: relax_def Let_def update_conv' split: if_splits)

lemma fold_relax_measure:
  "fold relax ts (d, q) = (d', q') \<Longrightarrow> length q' + positives d' = length q + positives d"
proof (induction ts arbitrary: d q)
  case Nil
  then show ?case by simp
next
  case (Cons t ts)
  obtain d1 q1 where r: "relax t (d, q) = (d1, q1)" by (cases "relax t (d, q)")
  with Cons.prems have "fold relax ts (d1, q1) = (d', q')" by simp
  from Cons.IH [OF this] relax_measure [OF r] show ?case by simp
qed

termination kahn_loop
proof (relation "measure (\<lambda>(graph, inDegree, queue, result). length queue + positives inDegree)")
  show "wf (measure (\<lambda>(graph, inDegree, queue, result). length queue + positives inDegree))"
    by simp
next
  fix graph :: "(string, string list) jsMap" and inDegree :: "(string, int) jsMap"
    and nodeId :: string and queue result :: "string list" and x xa y
  assume x: "x = (case map_of graph nodeId of None \<Rightarrow> (inDegree, queue)
                   | Some neighbors \<Rightarrow> fold relax neighbors (inDegree, queue))"
    and xy: "(xa, y) = x"
  have "length y + positives xa = length queue + positives inDegree"
  proof (cases "map_of graph nodeId")
    case None
    with x xy show ?thesis by simp
  next
    case (Some neighbors)
    with x xy have "fold relax neighbors (inDegree, queue) = (xa, y)" by simp
    then show ?thesis by (rule fold_relax_measure)
  qed
  then show "((graph, xa, y, result @ [nodeId]), graph, inDegree, nodeId # queue, result)
      \<in> measure (\<lambda>(graph, inDegree, queue, result). length queue + positives inDegree)"
    by simp
qed

section \<open>The maps built from the graph\<close>

lemma initStep_apply:
  "initStep n (g, d) = (AList.update (node_id n) [] g, AList.update (node_id n) 0 d)"
  by (simp add: initStep_def)

lemma fold_initStep:
  "fold initStep nodes (g, d) = (g', d') \<Longrightarrow>
     map_of g' s = (if s \<in> nodeIds nodes then Some [] else map_of g s) \<and>
     map_of d' s = (if s \<in> nodeIds nodes then Some 0 else map_of d s)"
proof (induction nodes arbitrary: g d)
  case Nil
  then show ?case by (simp add: nodeIds_def)
next
  case (Cons n ns)
  from Cons.prems have
    "fold initStep ns (AList.update (node_id n) [] g, AList.update (node_id n) 0 d) = (g', d')"
    by (simp add: initStep_apply)
  from Cons.IH [OF this] show ?case
    by (auto simp: nodeIds_def update_conv')
qed

lemma no_target_filter:
  "t \<notin> target ` set es \<Longrightarrow> filter (\<lambda>e. target e = t) es = []"
  by (induction es) auto

lemma fold_buildStep:
  "fold buildStep edges (g, d) = (g', d') \<Longrightarrow>
     map_of g' s = (case map_of g s of None \<Rightarrow> None
                    | Some ts \<Rightarrow> Some (ts @ outTargets edges s)) \<and>
     map_of d' s = (if s \<in> target ` set edges
                    then Some (getOr0 d s + int (length (filter (\<lambda>e. target e = s) edges)))
                    else map_of d s)"
proof (induction edges arbitrary: g d)
  case Nil
  then show ?case by (simp add: outTargets_def split: option.splits)
next
  case (Cons e es)
  obtain g1 d1 where s1: "buildStep e (g, d) = (g1, d1)" by (cases "buildStep e (g, d)")
  with Cons.prems have "fold buildStep es (g1, d1) = (g', d')" by simp
  note ih = Cons.IH [OF this]
  from s1 have g1: "map_of g1 s = (case map_of g s of None \<Rightarrow> None
      | Some ts \<Rightarrow> Some (if source e = s then ts @ [target e] else ts))"
    by (auto simp: buildStep_def update_conv' split: option.splits)
  from s1 have d1: "map_of d1 s = (if target e = s then Some (getOr0 d s + 1) else map_of d s)"
    by (auto simp: buildStep_def update_conv')
  have "map_of g' s = (case map_of g s of None \<Rightarrow> None
                    | Some ts \<Rightarrow> Some (ts @ outTargets (e # es) s))"
    using ih g1 by (auto simp: outTargets_def split: option.splits)
  moreover have "map_of d' s = (if s \<in> target ` set (e # es)
                    then Some (getOr0 d s + int (length (filter (\<lambda>e. target e = s) (e # es))))
                    else map_of d s)"
    using ih d1 by (auto simp: getOr0_def no_target_filter)
  ultimately show ?case by blast
qed

lemma buildMaps_graph:
  "map_of (fst (buildMaps nodes edges)) s =
     (if s \<in> nodeIds nodes then Some (outTargets edges s) else None)"
proof -
  obtain g0 d0 where i: "fold initStep nodes ([], []) = (g0, d0)"
    by (cases "fold initStep nodes ([], [])")
  obtain g1 d1 where b: "fold buildStep edges (g0, d0) = (g1, d1)"
    by (cases "fold buildStep edges (g0, d0)")
  from fold_initStep [OF i, of s] fold_buildStep [OF b, of s] i b show ?thesis
    by (auto simp: buildMaps_def)
qed

lemma buildMaps_inDegree:
  "map_of (snd (buildMaps nodes edges)) t =
     (if t \<in> nodeIds nodes \<union> target ` set edges
      then Some (int (length (filter (\<lambda>e. target e = t) edges))) else None)"
proof -
  obtain g0 d0 where i: "fold initStep nodes ([], []) = (g0, d0)"
    by (cases "fold initStep nodes ([], [])")
  obtain g1 d1 where b: "fold buildStep edges (g0, d0) = (g1, d1)"
    by (cases "fold buildStep edges (g0, d0)")
  with no_target_filter [of t edges] fold_initStep [OF i, of t] fold_buildStep [OF b, of t] i b show ?thesis
    by (auto simp: buildMaps_def getOr0_def)
qed

section \<open>The loop invariant\<close>

lemma relax_map:
  "relax a (d, q) = (d1, q1) \<Longrightarrow>
     map_of d1 = (map_of d)(a \<mapsto> getOr0 d a - 1) \<and>
     q1 = (if getOr0 d a = 1 then q @ [a] else q)"
  by (auto simp: relax_def Let_def update_conv')

lemma fold_relax:
  "fold relax ts (d, q) = (d', q') \<Longrightarrow>
     (\<forall>t. map_of d' t = (if t \<in> set ts then Some (getOr0 d t - int (count_list ts t))
                          else map_of d t)) \<and>
     (\<exists>p. q' = q @ p \<and> distinct p \<and>
          set p = {t \<in> set ts. 1 \<le> getOr0 d t \<and> getOr0 d t \<le> int (count_list ts t)})"
proof (induction ts arbitrary: d q)
  case Nil
  then show ?case by simp
next
  case (Cons a ts)
  obtain d1 q1 where r: "relax a (d, q) = (d1, q1)" by (cases "relax a (d, q)")
  with Cons.prems have f: "fold relax ts (d1, q1) = (d', q')" by simp
  from relax_map [OF r] have m1: "map_of d1 = (map_of d)(a \<mapsto> getOr0 d a - 1)"
    and q1: "q1 = (if getOr0 d a = 1 then q @ [a] else q)" by simp_all
  have g1: "getOr0 d1 t = (if t = a then getOr0 d a - 1 else getOr0 d t)" for t
    by (simp add: getOr0_def m1)
  from Cons.IH [OF f] obtain p where
    dm: "\<And>t. map_of d' t = (if t \<in> set ts then Some (getOr0 d1 t - int (count_list ts t))
                          else map_of d1 t)"
    and p: "q' = q1 @ p" "distinct p"
      "set p = {t \<in> set ts. 1 \<le> getOr0 d1 t \<and> getOr0 d1 t \<le> int (count_list ts t)}"
    by blast
  have A: "map_of d' t = (if t \<in> set (a # ts)
             then Some (getOr0 d t - int (count_list (a # ts) t)) else map_of d t)" for t
  proof (cases "t = a")
    case True
    then show ?thesis by (cases "a \<in> set ts") (simp_all add: dm g1 m1)
  next
    case False
    then show ?thesis by (simp add: dm g1 m1)
  qed
  let ?p = "(if getOr0 d a = 1 then [a] else []) @ p"
  have B1: "q' = q @ ?p" using p(1) q1 by simp
  have "a \<notin> set p" if "getOr0 d a = 1"
    using that p(3) by (simp add: g1)
  then have B2: "distinct ?p" using p(2) by simp
  have B3: "t \<in> set ?p \<longleftrightarrow>
      t \<in> set (a # ts) \<and> 1 \<le> getOr0 d t \<and> getOr0 d t \<le> int (count_list (a # ts) t)" for t
  proof (cases "t = a")
    case True
    show ?thesis
    proof (cases "a \<in> set ts")
      case True
      with \<open>t = a\<close> show ?thesis using p(3) by (simp add: g1) linarith
    next
      case False
      then have "count_list ts a = 0" by simp
      with False \<open>t = a\<close> show ?thesis using p(3) by (simp add: g1) linarith
    qed
  next
    case False
    then show ?thesis using p(3) by (simp add: g1)
  qed
  from B3 have "set ?p = {t \<in> set (a # ts). 1 \<le> getOr0 d t \<and> getOr0 d t \<le> int (count_list (a # ts) t)}"
    by blast
  with A B1 B2 show ?case by blast
qed

lemma pending_zero:
  assumes "pending N E R t = 0" and "e \<in> set E" and "target e = t"
  shows "source e \<in> set R \<and> source e \<in> nodeIds N"
proof -
  from assms(1) have "filter (\<lambda>e. target e = t \<and> \<not> (source e \<in> set R \<and> source e \<in> nodeIds N)) E = []"
    by (simp add: pending_def)
  with assms(2,3) show ?thesis by (auto simp: filter_empty_conv)
qed

lemma pending_snoc_other:
  "q \<notin> nodeIds N \<Longrightarrow> pending N E (R @ [q]) t = pending N E R t"
  unfolding pending_def by (rule arg_cong [where f = length], rule filter_cong) auto

lemma pending_snoc:
  "q \<in> nodeIds N \<Longrightarrow> q \<notin> set R \<Longrightarrow>
     pending N E (R @ [q]) t + count_list (outTargets E q) t = pending N E R t"
  by (induction E) (auto simp: pending_def outTargets_def)

lemma count_outTargets_0: "t \<notin> set (outTargets E q) \<Longrightarrow> count_list (outTargets E q) t = 0"
  by simp

lemma outTargets_target: "t \<in> set (outTargets E q) \<Longrightarrow> t \<in> target ` set E"
  by (auto simp: outTargets_def)

lemma kahn_step:
  assumes inv: "kahn_inv N E g d (q # Q) R"
    and st: "(case map_of g q of None \<Rightarrow> (d, Q) | Some ns \<Rightarrow> fold relax ns (d, Q)) = (d1, Q1)"
  shows "kahn_inv N E g d1 Q1 (R @ [q])"
proof -
  let ?K = "nodeIds N \<union> target ` set E"
  from inv have G: "\<And>s. map_of g s = (if s \<in> nodeIds N then Some (outTargets E s) else None)"
    and D: "\<And>t. map_of d t = (if t \<in> ?K then Some (int (pending N E R t)) else None)"
    and dist: "distinct (R @ q # Q)"
    and zero: "set (R @ q # Q) = {t. map_of d t = Some 0}"
    and ord: "\<And>e. e \<in> set E \<Longrightarrow> target e \<in> set R \<Longrightarrow>
        \<exists>xs ys. R = xs @ target e # ys \<and> source e \<in> set xs"
    by (simp_all add: kahn_inv_def)
  from dist have qR: "q \<notin> set R" by simp
  have zeroD: "map_of d t = Some 0" if "t \<in> set (R @ q # Q)" for t
    using that zero by blast
  have zeroI: "t \<in> set (R @ q # Q)" if "map_of d t = Some 0" for t
    using that zero by blast
  have pend0: "t \<in> ?K \<and> pending N E R t = 0" if "map_of d t = Some 0" for t
    using that D [of t] by (simp split: if_splits)
  have q0: "pending N E R q = 0"
    using pend0 [OF zeroD [of q]] by simp
  have ord': "\<exists>xs ys. R @ [q] = xs @ target e # ys \<and> source e \<in> set xs"
    if e: "e \<in> set E" and t: "target e \<in> set (R @ [q])" for e
  proof (cases "target e \<in> set R")
    case True
    from ord [OF e True] obtain xs ys where "R = xs @ target e # ys" "source e \<in> set xs"
      by blast
    then have "R @ [q] = xs @ target e # (ys @ [q]) \<and> source e \<in> set xs" by simp
    then show ?thesis by blast
  next
    case False
    with t have "target e = q" by simp
    with pending_zero [OF q0 e] have "R @ [q] = R @ target e # [] \<and> source e \<in> set R"
      by simp
    then show ?thesis by blast
  qed
  show ?thesis
  proof (cases "q \<in> nodeIds N")
    case False
    with G [of q] st have eq: "d1 = d" "Q1 = Q" by simp_all
    have D': "map_of d t = (if t \<in> ?K then Some (int (pending N E (R @ [q]) t)) else None)" for t
      using D [of t] by (simp add: pending_snoc_other [OF False])
    have "distinct ((R @ [q]) @ Q)" using dist by simp
    moreover have "set ((R @ [q]) @ Q) = {t. map_of d t = Some 0}" using zero by simp
    ultimately show ?thesis
      unfolding kahn_inv_def eq using G D' ord' by blast
  next
    case True
    let ?out = "outTargets E q"
    from True G [of q] st have f: "fold relax ?out (d, Q) = (d1, Q1)" by simp
    from fold_relax [OF f] obtain p where
      d1: "\<And>t. map_of d1 t = (if t \<in> set ?out then Some (getOr0 d t - int (count_list ?out t))
                                else map_of d t)"
      and p: "Q1 = Q @ p" "distinct p"
        "set p = {t \<in> set ?out. 1 \<le> getOr0 d t \<and> getOr0 d t \<le> int (count_list ?out t)}"
      by blast
    have gd: "getOr0 d t = int (pending N E R t)" if "t \<in> ?K" for t
      using that D [of t] by (simp add: getOr0_def)
    note ps = pending_snoc [OF True qR]
    have D': "map_of d1 t = (if t \<in> ?K then Some (int (pending N E (R @ [q]) t)) else None)" for t
    proof (cases "t \<in> set ?out")
      case True
      then have k: "t \<in> ?K" using outTargets_target by blast
      with True show ?thesis using d1 [of t] gd [OF k] ps [of E t] by simp
    next
      case False
      then have "pending N E (R @ [q]) t = pending N E R t"
        using ps [of E t] count_outTargets_0 [OF False] by simp
      with False show ?thesis using d1 [of t] D [of t] by simp
    qed
    have inP: "t \<in> set p \<longleftrightarrow> t \<in> set ?out \<and> map_of d1 t = Some 0" for t
    proof (cases "t \<in> set ?out")
      case True
      then have k: "t \<in> ?K" using outTargets_target by blast
      from True have "1 \<le> count_list ?out t"
        using count_list_0_iff [of ?out t] by linarith
      with True show ?thesis using p(3) D' [of t] k gd [OF k] ps [of E t] by auto
    next
      case False
      then show ?thesis using p(3) by simp
    qed
    have old: "map_of d1 t = Some 0 \<and> t \<notin> set ?out" if "t \<in> set (R @ q # Q)" for t
    proof -
      from pend0 [OF zeroD [OF that]] have k: "t \<in> ?K" and z: "pending N E R t = 0" by simp_all
      from z ps [of E t] have c: "count_list ?out t = 0" by simp
      then have "t \<notin> set ?out" by (simp add: count_list_0_iff)
      with zeroD [OF that] show ?thesis using d1 [of t] by simp
    qed
    have disj: "t \<notin> set p" if "t \<in> set (R @ q # Q)" for t
      using old [OF that] inP [of t] by simp
    have dist': "distinct ((R @ [q]) @ Q1)"
      using dist p(1,2) disj by auto
    have zero': "set ((R @ [q]) @ Q1) = {t. map_of d1 t = Some 0}"
    proof (rule set_eqI)
      fix t
      show "t \<in> set ((R @ [q]) @ Q1) \<longleftrightarrow> t \<in> {t. map_of d1 t = Some 0}"
      proof (cases "t \<in> set ?out")
        case True
        with inP [of t] old [of t] show ?thesis using p(1) by auto
      next
        case False
        then have "map_of d1 t = map_of d t" using d1 [of t] by simp
        with False inP [of t] zeroD [of t] zeroI [of t] show ?thesis using p(1) by auto
      qed
    qed
    show ?thesis
      unfolding kahn_inv_def using G D' dist' zero' ord' by blast
  qed
qed

lemma kahn_loop_inv:
  "kahn_inv N E g d Q R \<Longrightarrow> \<exists>d'. kahn_inv N E g d' [] (kahn_loop g d Q R)"
proof (induction g d Q R rule: kahn_loop.induct)
  case (1 graph inDegree result)
  then show ?case by auto
next
  case (2 graph inDegree nodeId queue result)
  obtain d1 Q1 where st: "(case map_of graph nodeId of None \<Rightarrow> (inDegree, queue)
      | Some ns \<Rightarrow> fold relax ns (inDegree, queue)) = (d1, Q1)"
    by (cases "case map_of graph nodeId of None \<Rightarrow> (inDegree, queue)
      | Some ns \<Rightarrow> fold relax ns (inDegree, queue)")
  from kahn_step [OF "2.prems" st] have "kahn_inv N E graph d1 Q1 (result @ [nodeId])" .
  from "2.IH" [OF st [symmetric] refl this] show ?case
    using st by simp
qed

section \<open>Sorting\<close>

lemma mset_insertBy: "mset (insertBy cmp x xs) = add_mset x (mset xs)"
  by (induction xs) auto

lemma mset_arraySort: "mset (arraySort cmp xs) = mset xs"
  by (induction xs) (auto simp: arraySort_def mset_insertBy)

lemma set_arraySort: "set (arraySort cmp xs) = set xs"
  using mset_arraySort [of cmp xs] by (rule mset_eq_setD)

lemma insertBy_key: "insertBy (\<lambda>a b. key a - key b) x xs = insort_key key x xs"
  by (induction xs) auto

lemma arraySort_key: "arraySort (\<lambda>a b. key a - key b) xs = sort_key key xs"
  by (induction xs) (simp_all add: arraySort_def insertBy_key)

lemma firstEdgeCompare_key:
  "firstEdgeCompare edges = (\<lambda>a b. firstOutIndex edges a - firstOutIndex edges b)"
  by (intro ext) (simp add: firstEdgeCompare_def firstOutIndex_def)

lemma stableSort_unique:
  assumes "stableSort srt"
  shows "srt (\<lambda>a b. key a - key b) xs = sort_key key xs"
proof (rule sym, rule properties_for_sort_key)
  let ?ys = "srt (\<lambda>a b. key a - key b) xs"
  from assms show "mset ?ys = mset xs" and "sorted (map key ?ys)"
    by (simp_all add: stableSort_def)
  fix k
  from assms have "filter (\<lambda>x. key x = key k) ?ys = filter (\<lambda>x. key x = key k) xs"
    unfolding stableSort_def by blast
  then show "filter (\<lambda>x. key k = key x) ?ys = filter (\<lambda>x. key k = key x) xs"
    by (simp add: eq_commute)
qed

lemma stableSort_arraySort: "stableSort arraySort"
  unfolding stableSort_def by (simp add: arraySort_key sort_key_stable)

lemma sort_key_least_first:
  fixes f :: "'a \<Rightarrow> int"
  assumes "\<And>x. x \<in> set xs \<Longrightarrow> m \<le> f x"
  shows "sort_key f xs = filter (\<lambda>x. f x = m) xs @ sort_key f (filter (\<lambda>x. f x \<noteq> m) xs)"
proof (rule properties_for_sort_key)
  let ?ys = "filter (\<lambda>x. f x = m) xs @ sort_key f (filter (\<lambda>x. f x \<noteq> m) xs)"
  show "mset ?ys = mset xs" by (induction xs) auto
  have "sorted (map f (filter (\<lambda>x. f x = m) xs))" by (induction xs) auto
  then show "sorted (map f ?ys)"
    using assms by (auto simp: sorted_append)
  fix k
  show "filter (\<lambda>x. f k = f x) ?ys = filter (\<lambda>x. f k = f x) xs"
  proof (cases "f k = m")
    case True
    then have "filter (\<lambda>x. f k = f x) (filter (\<lambda>x. f x = m) xs) = filter (\<lambda>x. f k = f x) xs"
      by (auto intro: filter_cong)
    moreover from True have "filter (\<lambda>x. f k = f x) (filter (\<lambda>x. f x \<noteq> m) xs) = []"
      by (auto simp: filter_empty_conv)
    ultimately show ?thesis by (simp add: filter_sort)
  next
    case False
    then have "filter (\<lambda>x. f k = f x) (filter (\<lambda>x. f x = m) xs) = []"
      by (auto simp: filter_empty_conv)
    moreover from False have "filter (\<lambda>x. f k = f x) (filter (\<lambda>x. f x \<noteq> m) xs) = filter (\<lambda>x. f k = f x) xs"
      by (auto intro: filter_cong)
    moreover have "filter (\<lambda>x. f k = f x) (sort_key f (filter (\<lambda>x. f x \<noteq> m) xs))
        = filter (\<lambda>x. f k = f x) (filter (\<lambda>x. f x \<noteq> m) xs)"
      using sort_key_stable [of f "f k" "filter (\<lambda>x. f x \<noteq> m) xs"] by (simp add: eq_commute)
    ultimately show ?thesis by simp
  qed
qed

section \<open>The initial state and the returned order\<close>

lemma distinct_readyQueue:
  assumes "distinct (map node_id nodes)"
  shows "distinct (readyQueueBy arraySort nodes edges)"
proof -
  let ?src = "filter (\<lambda>node. map_of (snd (buildMaps nodes edges)) (node_id node) = Some 0) nodes"
  have "mset (map node_id (arraySort (firstEdgeCompare edges) ?src)) = mset (map node_id ?src)"
    by (simp add: mset_arraySort)
  moreover have "distinct (map node_id ?src)"
    using assms by (rule distinct_map_filter)
  ultimately show ?thesis
    unfolding readyQueueBy_def Let_def by (metis mset_eq_imp_distinct_iff)
qed

lemma set_readyQueue:
  "set (readyQueueBy arraySort nodes edges) =
     {t. map_of (snd (buildMaps nodes edges)) t = Some 0}"
proof (rule set_eqI)
  fix t
  have nz: "t \<in> target ` set edges \<Longrightarrow> filter (\<lambda>e. target e = t) edges \<noteq> []"
    by (auto simp: filter_empty_conv)
  have "map_of (snd (buildMaps nodes edges)) t = Some 0 \<Longrightarrow> t \<in> nodeIds nodes"
    using nz by (auto simp: buildMaps_inDegree split: if_splits)
  then show "t \<in> set (readyQueueBy arraySort nodes edges) \<longleftrightarrow>
      t \<in> {t. map_of (snd (buildMaps nodes edges)) t = Some 0}"
    by (auto simp: readyQueueBy_def Let_def set_arraySort nodeIds_def)
qed

lemma kahn_inv_initial:
  assumes "distinct (map node_id nodes)"
  shows "kahn_inv nodes edges (fst (buildMaps nodes edges)) (snd (buildMaps nodes edges))
           (readyQueueBy arraySort nodes edges) []"
  unfolding kahn_inv_def
  using distinct_readyQueue [OF assms, of edges] set_readyQueue [of nodes edges]
  by (simp add: buildMaps_graph buildMaps_inDegree pending_def)

lemma kahnOrder_inv:
  assumes "distinct (map node_id nodes)"
  shows "\<exists>d'. kahn_inv nodes edges (fst (buildMaps nodes edges)) d' [] (kahnOrder nodes edges)"
  unfolding kahnOrder_def by (rule kahn_loop_inv [OF kahn_inv_initial [OF assms]])

lemma lookup_ids:
  "map node_id (lookupNodes nodes R) = filter (\<lambda>i. i \<in> nodeIds nodes) R"
  unfolding lookupNodes_def
proof (induction R)
  case Nil
  show ?case by simp
next
  case (Cons i R)
  show ?case
  proof (cases "find (\<lambda>node. node_id node = i) nodes")
    case None
    then have "i \<notin> nodeIds nodes" by (auto simp: find_None_iff nodeIds_def)
    with None Cons show ?thesis by simp
  next
    case (Some n)
    then have "node_id n = i" "n \<in> set nodes" by (auto simp: find_Some_iff)
    then have "i \<in> nodeIds nodes" by (auto simp: nodeIds_def)
    with Some \<open>node_id n = i\<close> Cons show ?thesis by simp
  qed
qed

lemma lookup_subset: "set (lookupNodes nodes R) \<subseteq> set nodes"
  unfolding lookupNodes_def
proof (induction R)
  case Nil
  show ?case by simp
next
  case (Cons i R)
  show ?case
  proof (cases "find (\<lambda>node. node_id node = i) nodes")
    case None
    with Cons show ?thesis by simp
  next
    case (Some n)
    then have "n \<in> set nodes" by (auto simp: find_Some_iff)
    with Some Cons show ?thesis by simp
  qed
qed

lemma topologicalEdgeSort_ids:
  "map node_id (topologicalEdgeSort nodes edges)
     = filter (\<lambda>i. i \<in> nodeIds nodes) (kahnOrder nodes edges)"
  unfolding topologicalEdgeSort_def topologicalEdgeSortBy_def kahnOrder_def split_beta Let_def
  by (rule lookup_ids)

lemma topologicalEdgeSort_subset: "set (topologicalEdgeSort nodes edges) \<subseteq> set nodes"
  unfolding topologicalEdgeSort_def topologicalEdgeSortBy_def split_beta Let_def
  by (rule lookup_subset)

lemma findIndex_bounds: "- 1 \<le> findIndex P xs \<and> findIndex P xs < int (length xs)"
  by (induction xs) (auto simp: Let_def)

lemma findIndex_found: "(\<exists>x\<in>set xs. P x) \<longleftrightarrow> 0 \<le> findIndex P xs"
  using findIndex_bounds [of P] by (induction xs) (auto simp: Let_def)

lemma findIndex_append:
  "findIndex P (xs @ ys) =
     (if \<exists>x\<in>set xs. P x then findIndex P xs
      else if findIndex P ys = - 1 then - 1 else int (length xs) + findIndex P ys)"
  using findIndex_bounds [of P ys] by (induction xs) (auto simp: Let_def)

lemma findIndex_map: "findIndex P (map f xs) = findIndex (\<lambda>x. P (f x)) xs"
  by (induction xs) (auto simp: Let_def)

lemma findIndex_before:
  assumes "distinct (xs @ t # ys)" and "s \<in> set xs"
  shows "0 \<le> findIndex (\<lambda>i. i = s) (xs @ t # ys) \<and>
         findIndex (\<lambda>i. i = s) (xs @ t # ys) < findIndex (\<lambda>i. i = t) (xs @ t # ys)"
proof -
  from assms(1) have "t \<notin> set xs" by simp
  then have "findIndex (\<lambda>i. i = t) (xs @ t # ys) = int (length xs)"
    by (simp add: findIndex_append)
  moreover from assms(2) have "findIndex (\<lambda>i. i = s) (xs @ t # ys) = findIndex (\<lambda>i. i = s) xs"
    by (auto simp: findIndex_append)
  moreover from assms(2) have "0 \<le> findIndex (\<lambda>i. i = s) xs"
    using findIndex_found [of xs "\<lambda>i. i = s"] by blast
  ultimately show ?thesis using findIndex_bounds [of "\<lambda>i. i = s" xs] by simp
qed

lemma kahn_final_order:
  assumes inv: "kahn_inv N E g d [] R"
    and e: "e \<in> set E" and t: "target e \<in> set R"
  shows "0 \<le> findIndex (\<lambda>i. i = source e) R \<and>
         findIndex (\<lambda>i. i = source e) R < findIndex (\<lambda>i. i = target e) R"
proof -
  from inv have dist: "distinct R" by (simp add: kahn_inv_def)
  from inv e t obtain xs ys where R: "R = xs @ target e # ys" and s: "source e \<in> set xs"
    unfolding kahn_inv_def by blast
  from dist R have "distinct (xs @ target e # ys)" by simp
  from findIndex_before [OF this s] R show ?thesis by simp
qed

lemma kahn_final_complete:
  assumes inv: "kahn_inv N E g d [] R"
    and valid: "\<forall>e\<in>set E. source e \<in> nodeIds N"
    and acyc: "acyclic (depRel E)"
  shows "nodeIds N \<subseteq> set R"
proof (rule ccontr)
  assume "\<not> nodeIds N \<subseteq> set R"
  then obtain x where x: "x \<in> nodeIds N - set R" by blast
  have "finite (depRel E)" by (simp add: depRel_def)
  then have "wf (depRel E)" using acyc by (rule finite_acyclic_wf)
  from wfE_min [OF this x] obtain z where z: "z \<in> nodeIds N - set R"
    and zmin: "\<And>y. (y, z) \<in> depRel E \<Longrightarrow> y \<notin> nodeIds N - set R"
    by blast
  from inv have D: "map_of d z = (if z \<in> nodeIds N \<union> target ` set E
      then Some (int (pending N E R z)) else None)"
    and zero: "set R = {t. map_of d t = Some 0}"
    by (simp_all add: kahn_inv_def)
  from z zero have "map_of d z \<noteq> Some 0" by blast
  with D z have "pending N E R z \<noteq> 0" by auto
  then have "filter (\<lambda>e. target e = z \<and> \<not> (source e \<in> set R \<and> source e \<in> nodeIds N)) E \<noteq> []"
    by (simp add: pending_def)
  then obtain e where e: "e \<in> set E" "target e = z" "\<not> (source e \<in> set R \<and> source e \<in> nodeIds N)"
    by (auto simp: filter_empty_conv)
  with valid have "source e \<in> nodeIds N - set R" by blast
  moreover from e have "(source e, z) \<in> depRel E" by (force simp: depRel_def)
  ultimately show False using zmin by blast
qed

lemma kahn_final_cycle:
  assumes inv: "kahn_inv N E g d [] R"
    and st: "(s, t) \<in> (depRel E)\<^sup>+"
  shows "t \<in> set R \<longrightarrow>
     0 \<le> findIndex (\<lambda>i. i = s) R \<and> findIndex (\<lambda>i. i = s) R < findIndex (\<lambda>i. i = t) R"
  using st
proof (induction rule: trancl_induct)
  case (base y)
  then obtain e where "e \<in> set E" "source e = s" "target e = y" by (auto simp: depRel_def)
  with kahn_final_order [OF inv, of e] show ?case by auto
next
  case (step y z)
  from step(2) obtain e where e: "e \<in> set E" "source e = y" "target e = z"
    by (auto simp: depRel_def)
  show ?case
  proof
    assume "z \<in> set R"
    with kahn_final_order [OF inv, of e] e
    have yz: "0 \<le> findIndex (\<lambda>i. i = y) R" "findIndex (\<lambda>i. i = y) R < findIndex (\<lambda>i. i = z) R"
      by auto
    from yz(1) have "y \<in> set R" using findIndex_found [of R "\<lambda>i. i = y"] by auto
    with step.IH yz show "0 \<le> findIndex (\<lambda>i. i = s) R \<and>
        findIndex (\<lambda>i. i = s) R < findIndex (\<lambda>i. i = z) R" by simp
  qed
qed

lemma ids_order:
  assumes inv: "kahn_inv N E g d [] R"
    and e: "e \<in> set E" and t: "target e \<in> set R"
    and sN: "source e \<in> nodeIds N" and tN: "target e \<in> nodeIds N"
  shows "0 \<le> findIndex (\<lambda>i. i = source e) (filter (\<lambda>i. i \<in> nodeIds N) R) \<and>
         findIndex (\<lambda>i. i = source e) (filter (\<lambda>i. i \<in> nodeIds N) R)
           < findIndex (\<lambda>i. i = target e) (filter (\<lambda>i. i \<in> nodeIds N) R)"
proof -
  let ?f = "filter (\<lambda>i. i \<in> nodeIds N)"
  from inv have dist: "distinct R" by (simp add: kahn_inv_def)
  from inv e t obtain xs ys where R: "R = xs @ target e # ys" and s: "source e \<in> set xs"
    unfolding kahn_inv_def by blast
  from R tN have fR: "?f R = ?f xs @ target e # ?f ys" by simp
  from dist have "distinct (?f R)" by simp
  with fR have "distinct (?f xs @ target e # ?f ys)" by simp
  moreover from s sN have "source e \<in> set (?f xs)" by simp
  ultimately show ?thesis unfolding fR by (rule findIndex_before)
qed

lemma kahnOrder_distinct:
  assumes "distinct (map node_id nodes)"
  shows "distinct (kahnOrder nodes edges)"
  using kahnOrder_inv [OF assms, of edges] by (auto simp: kahn_inv_def)

lemma topologicalEdgeSort_distinct_ids:
  assumes "distinct (map node_id nodes)"
  shows "distinct (map node_id (topologicalEdgeSort nodes edges))"
  using kahnOrder_distinct [OF assms, of edges] by (simp add: topologicalEdgeSort_ids)

lemma topologicalEdgeSort_complete:
  assumes g: "acyclicGraph nodes edges"
  shows "set nodes \<subseteq> set (topologicalEdgeSort nodes edges)"
proof
  fix n assume n: "n \<in> set nodes"
  from g have dist: "distinct (map node_id nodes)"
    and ends: "\<forall>e\<in>set edges. source e \<in> nodeIds nodes"
    and acyc: "acyclic (depRel edges)"
    by (simp_all add: acyclicGraph_def validGraph_def)
  from kahnOrder_inv [OF dist] obtain d' where
    inv: "kahn_inv nodes edges (fst (buildMaps nodes edges)) d' [] (kahnOrder nodes edges)"
    by blast
  from kahn_final_complete [OF inv ends acyc] n
  have "node_id n \<in> set (kahnOrder nodes edges)" by (auto simp: nodeIds_def)
  with n have "node_id n \<in> set (map node_id (topologicalEdgeSort nodes edges))"
    unfolding topologicalEdgeSort_ids by (simp add: nodeIds_def)
  then obtain m where m: "m \<in> set (topologicalEdgeSort nodes edges)" "node_id m = node_id n"
    by auto
  with topologicalEdgeSort_subset have "m \<in> set nodes" by blast
  with dist n m(2) have "m = n" by (simp add: distinct_map inj_on_def)
  with m(1) show "n \<in> set (topologicalEdgeSort nodes edges)" by simp
qed

lemma acyclic_by_rank:
  fixes rank :: "string \<Rightarrow> nat"
  assumes "\<And>e. e \<in> set edges \<Longrightarrow> rank (source e) < rank (target e)"
  shows "acyclic (depRel edges)"
proof -
  have "acyclic ((depRel edges)\<inverse>)"
    by (rule acyclicI_order [where f = rank]) (auto simp: depRel_def assms)
  then show ?thesis by simp
qed

lemma diamond_acyclic: "acyclicGraph diamondNodes diamondEdges"
proof -
  have "acyclic (depRel diamondEdges)"
    by (rule acyclic_by_rank [where rank = "\<lambda>s. if s = ''A'' then 0 else if s = ''D'' then 2 else 1"])
       (auto simp: diamondEdges_def)
  then show ?thesis
    by (simp add: acyclicGraph_def validGraph_def nodeIds_def diamondNodes_def diamondEdges_def)
qed

lemma sourceNodes_roots:
  "filter (\<lambda>node. map_of (snd (buildMaps nodes edges)) (node_id node) = Some 0) nodes
     = rootNodes nodes edges"
  unfolding rootNodes_def
proof (rule filter_cong [OF refl])
  fix n assume n: "n \<in> set nodes"
  then have k: "node_id n \<in> nodeIds nodes" by (simp add: nodeIds_def)
  have "filter (\<lambda>e. target e = node_id n) edges = [] \<longleftrightarrow> node_id n \<notin> target ` set edges"
    by (auto simp: filter_empty_conv image_iff)
  with k show "(map_of (snd (buildMaps nodes edges)) (node_id n) = Some 0)
      = (node_id n \<notin> target ` set edges)"
    by (simp add: buildMaps_inDegree)
qed

lemma firstOutIndex_none: "firstOutIndex edges n = - 1 \<longleftrightarrow> \<not> hasOutgoing edges n"
proof -
  have "(\<exists>x\<in>set edges. source x = node_id n) \<longleftrightarrow> node_id n \<in> source ` set edges"
    by force
  then have "0 \<le> firstOutIndex edges n \<longleftrightarrow> hasOutgoing edges n"
    using findIndex_found [of edges "\<lambda>edge. source edge = node_id n"]
    by (simp add: firstOutIndex_def hasOutgoing_def)
  moreover have "- 1 \<le> firstOutIndex edges n"
    using findIndex_bounds [of "\<lambda>edge. source edge = node_id n" edges]
    by (simp add: firstOutIndex_def)
  ultimately show ?thesis by linarith
qed

section \<open>Numbering\<close>

lemma fold_numberNode:
  "fold (numberNode edges) order state = fold numberEdge (emissionOrder order edges) state"
  by (induction order arbitrary: state) (simp_all add: emissionOrder_def numberNode_def)

lemma numberEdge_apply:
  "numberEdge e (m, k) = (AList.update (edge_id e) k m, k + 1)"
  by (simp add: numberEdge_def)

lemma fold_numberEdge_distinct:
  assumes "distinct (map edge_id es)" and "fold numberEdge es (m, k) = (m', k')"
  shows "(\<forall>i<length es. map_of m' (edge_id (es ! i)) = Some (k + int i)) \<and>
         (\<forall>x. x \<notin> edge_id ` set es \<longrightarrow> map_of m' x = map_of m x)"
  using assms
proof (induction es arbitrary: m k)
  case Nil
  then show ?case by simp
next
  case (Cons e es)
  from Cons.prems have d: "distinct (map edge_id es)" and ne: "edge_id e \<notin> edge_id ` set es"
    by simp_all
  from Cons.prems have f: "fold numberEdge es (AList.update (edge_id e) k m, k + 1) = (m', k')"
    by (simp add: numberEdge_apply)
  from Cons.IH [OF d f] have
    ih1: "\<And>i. i < length es \<Longrightarrow> map_of m' (edge_id (es ! i)) = Some (k + 1 + int i)"
    and ih2: "\<And>x. x \<notin> edge_id ` set es \<Longrightarrow> map_of m' x = map_of (AList.update (edge_id e) k m) x"
    by blast+
  have A: "map_of m' (edge_id ((e # es) ! i)) = Some (k + int i)" if "i < length (e # es)" for i
  proof (cases i)
    case 0
    with ih2 [OF ne] show ?thesis by (simp add: update_conv')
  next
    case (Suc j)
    with that ih1 [of j] show ?thesis by simp
  qed
  have B: "map_of m' x = map_of m x" if "x \<notin> edge_id ` set (e # es)" for x
    using that ih2 [of x] by (simp add: update_conv')
  from A B show ?case by blast
qed

lemma fold_numberEdge_values:
  assumes "fold numberEdge es (m, k) = (m', k')" and "map_of m' x = Some v"
  shows "map_of m x = Some v \<or> k \<le> v"
  using assms
proof (induction es arbitrary: m k)
  case Nil
  then show ?case by simp
next
  case (Cons e es)
  from Cons.prems(1) have "fold numberEdge es (AList.update (edge_id e) k m, k + 1) = (m', k')"
    by (simp add: numberEdge_apply)
  from Cons.IH [OF this Cons.prems(2)]
  show ?case by (auto simp: update_conv' split: if_splits)
qed

lemma updateEdgeOrder_fold:
  "updateEdgeOrder nodes edges =
     fst (fold numberEdge (emissionOrder (topologicalEdgeSort nodes edges) edges) ([], 1))"
  by (simp add: updateEdgeOrder_def updateEdgeOrderBy_def topologicalEdgeSort_def fold_numberNode)

lemma updateEdgeOrder_positive:
  assumes "map_of (updateEdgeOrder nodes edges) x = Some v"
  shows "1 \<le> v"
proof -
  obtain m' k' where f: "fold numberEdge (emissionOrder (topologicalEdgeSort nodes edges) edges) ([], 1) = (m', k')"
    by (cases "fold numberEdge (emissionOrder (topologicalEdgeSort nodes edges) edges) ([], 1)")
  with assms have "map_of m' x = Some v" by (simp add: updateEdgeOrder_fold)
  from fold_numberEdge_values [OF f this] show ?thesis by simp
qed

lemma emissionOrder_distinct:
  assumes "distinct (map node_id order)" and "distinct (map edge_id edges)"
  shows "distinct (map edge_id (emissionOrder order edges))"
  using assms(1)
proof (induction order)
  case Nil
  show ?case by (simp add: emissionOrder_def)
next
  case (Cons n ns)
  let ?out = "filter (\<lambda>edge. source edge = node_id n) edges"
  have eq: "emissionOrder (n # ns) edges = ?out @ emissionOrder ns edges"
    by (simp add: emissionOrder_def)
  have d1: "distinct (map edge_id ?out)" using assms(2) by (rule distinct_map_filter)
  from Cons have d2: "distinct (map edge_id (emissionOrder ns edges))" by simp
  have inj: "inj_on edge_id (set edges)" using assms(2) by (simp add: distinct_map)
  have disj: "edge_id a \<noteq> edge_id b"
    if a: "a \<in> set ?out" and b: "b \<in> set (emissionOrder ns edges)" for a b
  proof
    assume e: "edge_id a = edge_id b"
    from a have a': "a \<in> set edges" "source a = node_id n" by simp_all
    from b obtain n' where b': "n' \<in> set ns" "b \<in> set edges" "source b = node_id n'"
      by (auto simp: emissionOrder_def)
    from inj a'(1) b'(2) e have "a = b" by (auto dest: inj_onD)
    with a'(2) b'(3) have "node_id n = node_id n'" by simp
    with b'(1) Cons.prems show False by auto
  qed
  show ?case unfolding eq using d1 d2 disj by auto
qed

lemma emissionOrder_subset: "set (emissionOrder order edges) \<subseteq> set edges"
  by (auto simp: emissionOrder_def)

lemma emissionOrder_sorted:
  assumes "distinct (map node_id order)"
  shows "sorted (map (\<lambda>e. orderIndex order (source e)) (emissionOrder order edges))"
  using assms
proof (induction order)
  case Nil
  show ?case by (simp add: emissionOrder_def)
next
  case (Cons n ns)
  let ?out = "filter (\<lambda>edge. source edge = node_id n) edges"
  let ?rest = "emissionOrder ns edges"
  have eq: "emissionOrder (n # ns) edges = ?out @ ?rest" by (simp add: emissionOrder_def)
  have out0: "orderIndex (n # ns) (source e) = 0" if "e \<in> set ?out" for e
    using that by (simp add: orderIndex_def)
  have rest1: "orderIndex (n # ns) (source e) = orderIndex ns (source e) + 1
      \<and> 0 \<le> orderIndex ns (source e)" if "e \<in> set ?rest" for e
  proof -
    from that obtain n' where n': "n' \<in> set ns" "source e = node_id n'"
      by (auto simp: emissionOrder_def)
    with Cons.prems have "node_id n \<noteq> source e" by auto
    moreover from n' have "0 \<le> orderIndex ns (source e)"
      using findIndex_found [of ns "\<lambda>node. node_id node = source e"]
      by (auto simp: orderIndex_def)
    ultimately show ?thesis by (simp add: orderIndex_def Let_def)
  qed
  from Cons have ih: "sorted (map (\<lambda>e. orderIndex ns (source e)) ?rest)" by simp
  have e1: "map (\<lambda>e. orderIndex (n # ns) (source e)) ?out = map (\<lambda>e. 0) ?out"
    using out0 by (intro map_cong) auto
  have "sorted (map (\<lambda>e. 0 :: int) xs)" for xs :: "Edge list"
    by (induction xs) auto
  then have s1: "sorted (map (\<lambda>e. orderIndex (n # ns) (source e)) ?out)"
    unfolding e1 .
  have e2: "map (\<lambda>e. orderIndex (n # ns) (source e)) ?rest = map (\<lambda>e. orderIndex ns (source e) + 1) ?rest"
    using rest1 by (intro map_cong) auto
  have "sorted (map (\<lambda>e. orderIndex ns (source e) + 1) ?rest)"
    using ih by (simp add: sorted_map)
  then have s2: "sorted (map (\<lambda>e. orderIndex (n # ns) (source e)) ?rest)"
    unfolding e2 .
  have s3: "orderIndex (n # ns) (source a) \<le> orderIndex (n # ns) (source b)"
    if "a \<in> set ?out" "b \<in> set ?rest" for a b
    using out0 [OF that(1)] rest1 [OF that(2)] by simp
  show ?case unfolding eq using s1 s2 s3 by (auto simp: sorted_append)
qed

section \<open>Validation and the host's invariant\<close>

lemma fold_recordError_prompt:
  assumes "\<forall>n\<in>set ns. node_type n \<noteq> CLI"
  shows "map_of (fold recordError ns m) i =
     (if i \<in> node_id ` set ns then Some ''Prompt field is required'' else map_of m i)"
  using assms by (induction ns arbitrary: m) (auto simp: recordError_def update_conv')

lemma blank_prompt_rejected:
  assumes n: "n \<in> set (flow_nodes s)" and bad: "missingPrompt n"
  shows "posted (onExecute s) = posted s \<and>
         map_of (nodeErrors (onExecute s)) (node_id n) = Some ''Prompt field is required''"
proof -
  let ?invalid = "filter missingPrompt (flow_nodes s)"
  from n bad have mem: "n \<in> set ?invalid" by simp
  then have ne: "0 < length ?invalid" by (cases ?invalid) auto
  have "\<forall>x\<in>set ?invalid. node_type x \<noteq> CLI"
    by (auto simp: missingPrompt_def split: if_splits)
  from fold_recordError_prompt [OF this, of "[]" "node_id n"] mem
  have "map_of (fold recordError ?invalid []) (node_id n) = Some ''Prompt field is required''"
    by auto
  with ne show ?thesis by (simp add: onExecute_def Let_def)
qed

lemma blank_prompt_example:
  "nodeErrors (onExecute emptyPromptFlow) = [(''n1'', ''Prompt field is required'')] \<and>
   posted (onExecute emptyPromptFlow) = []"
  by code_simp

lemma hostInv_initial: "hostInv initialHost"
  by (simp add: hostInv_def initialHost_def)

lemma hostInv_message: "hostInv s \<Longrightarrow> hostInv (onDidReceiveMessage m s)"
proof (cases m)
  case (execute_workflow d)
  assume "hostInv s"
  then show ?thesis unfolding execute_workflow hostInv_def
    by (auto simp: less_Suc_eq)
next
  case abort_workflow
  assume "hostInv s"
  then show ?thesis unfolding abort_workflow hostInv_def
    by (auto split: option.splits)
qed simp_all

lemma hostInv_settled: "hostInv s \<Longrightarrow> hostInv (runSettled c s)"
  unfolding hostInv_def runSettled_def by (auto dest: notin_set_remove1)

lemma hostInv_disposed: "hostInv s \<Longrightarrow> hostInv (onDidDispose s)"
  unfolding hostInv_def onDidDispose_def by (auto split: option.splits)

lemma reachable_hostInv: "reachable s \<Longrightarrow> hostInv s"
  by (induction rule: reachable.induct)
     (simp_all add: hostInv_initial hostInv_message hostInv_settled hostInv_disposed)

lemma singleInv_message:
  assumes "singleInv s" and "isExecute m \<longrightarrow> pendingRuns s = []"
  shows "singleInv (onDidReceiveMessage m s)"
proof (cases m)
  case (execute_workflow d)
  with assms(2) have "pendingRuns s = []" by simp
  with assms(1) show ?thesis unfolding execute_workflow by (simp add: singleInv_def)
next
  case abort_workflow
  with assms(1) show ?thesis by (auto simp: singleInv_def split: option.splits)
next
  case (save_workflow d)
  with assms(1) show ?thesis by simp
next
  case load_workflow
  with assms(1) show ?thesis by simp
qed

lemma singleInv_settled:
  assumes "singleInv s" and "c \<in> set (pendingRuns s)"
  shows "singleInv (runSettled c s)"
  using assms by (auto simp: singleInv_def runSettled_def)

lemma reachableSingle_inv: "reachableSingle s \<Longrightarrow> singleInv s"
proof (induction rule: reachableSingle.induct)
  case single_start
  show ?case by (simp add: singleInv_def initialHost_def)
next
  case (single_message s m)
  then show ?case by (intro singleInv_message)
next
  case (single_settled s c)
  then show ?case by (intro singleInv_settled)
qed

lemma single_run_holds_token:
  assumes "reachableSingle s" and "c \<in> set (pendingRuns s)" and "c \<notin> set (abortCalls s)"
  shows "activeAbortController s = Some c"
  using reachableSingle_inv [OF assms(1)] assms(2,3) by (auto simp: singleInv_def)

section \<open>Order validity\<close>

text \<open>
  C1. On an acyclic graph (distinct node ids, every edge end point an existing node, no
  dependency cycle) the execution order returned by \<^verbatim>\<open>topologicalEdgeSort\<close> places the
  source of every edge strictly before its target: the source is found in the returned
  list, and at a smaller index than the target.
\<close>

theorem order_validity:
  assumes g: "acyclicGraph nodes edges" and e: "e \<in> set edges"
  shows "0 \<le> findIndex (\<lambda>n. node_id n = source e) (topologicalEdgeSort nodes edges) \<and>
         findIndex (\<lambda>n. node_id n = source e) (topologicalEdgeSort nodes edges)
           < findIndex (\<lambda>n. node_id n = target e) (topologicalEdgeSort nodes edges)"
proof -
  from g have dist: "distinct (map node_id nodes)"
    and ends: "\<forall>e\<in>set edges. source e \<in> nodeIds nodes \<and> target e \<in> nodeIds nodes"
    and acyc: "acyclic (depRel edges)"
    by (simp_all add: acyclicGraph_def validGraph_def)
  from kahnOrder_inv [OF dist] obtain d' where
    inv: "kahn_inv nodes edges (fst (buildMaps nodes edges)) d' [] (kahnOrder nodes edges)"
    by blast
  from ends have "\<forall>e\<in>set edges. source e \<in> nodeIds nodes" by blast
  from kahn_final_complete [OF inv this acyc] have all: "nodeIds nodes \<subseteq> set (kahnOrder nodes edges)" .
  from ends e have sN: "source e \<in> nodeIds nodes" and tN: "target e \<in> nodeIds nodes" by blast+
  from tN all have t: "target e \<in> set (kahnOrder nodes edges)" by blast
  have idx: "findIndex (\<lambda>n. node_id n = x) (topologicalEdgeSort nodes edges)
      = findIndex (\<lambda>i. i = x) (filter (\<lambda>i. i \<in> nodeIds nodes) (kahnOrder nodes edges))" for x
    using findIndex_map [of "\<lambda>i. i = x" node_id "topologicalEdgeSort nodes edges"]
    by (simp add: topologicalEdgeSort_ids)
  from ids_order [OF inv e t sN tN] show ?thesis by (simp add: idx)
qed

text \<open>C1 on the diamond, for the edge from \<open>B\<close> to \<open>D\<close>.\<close>

theorem order_validity_witness:
  "acyclicGraph diamondNodes diamondEdges \<and>
   testEdge ''e3'' ''B'' ''D'' \<in> set diamondEdges \<and>
   0 \<le> findIndex (\<lambda>n. node_id n = ''B'') (topologicalEdgeSort diamondNodes diamondEdges) \<and>
   findIndex (\<lambda>n. node_id n = ''B'') (topologicalEdgeSort diamondNodes diamondEdges)
     < findIndex (\<lambda>n. node_id n = ''D'') (topologicalEdgeSort diamondNodes diamondEdges)"
proof -
  have m: "testEdge ''e3'' ''B'' ''D'' \<in> set diamondEdges" by (simp add: diamondEdges_def)
  from order_validity [OF diamond_acyclic m] diamond_acyclic m show ?thesis by simp
qed

section \<open>Graphs with a cycle\<close>

text \<open>
  C2, as stated, asks that a graph with a dependency cycle is refused with an error and
  that no partial order is returned. The sequencer has no error result: on the root \<open>S\<close>
  feeding the cycle \<open>A \<rightarrow> B \<rightarrow> A\<close> it returns the one-element order \<open>[S]\<close>.
\<close>

theorem cyclic_graph_counterexample:
  "(''A'', ''A'') \<in> (depRel cycleEdges)\<^sup>+ \<and>
   topologicalEdgeSort cycleNodes cycleEdges = [testNode ''S'' INPUT]"
proof
  have "(''A'', ''B'') \<in> depRel cycleEdges" "(''B'', ''A'') \<in> depRel cycleEdges"
    by (simp_all add: depRel_def cycleEdges_def)
  then show "(''A'', ''A'') \<in> (depRel cycleEdges)\<^sup>+" by (rule trancl_into_trancl [OF r_into_trancl])
  show "topologicalEdgeSort cycleNodes cycleEdges = [testNode ''S'' INPUT]" by code_simp
qed

text \<open>
  C2, amended. For a node list with distinct ids, \<^verbatim>\<open>topologicalEdgeSort\<close> returns a list
  for every edge list; a node that lies on a dependency cycle never appears in it, so the
  order returned for a graph whose cycle runs through one of its nodes is strictly shorter
  than the node list.
\<close>

theorem cyclic_nodes_omitted:
  assumes dist: "distinct (map node_id nodes)"
    and cyc: "(c, c) \<in> (depRel edges)\<^sup>+"
  shows "c \<notin> node_id ` set (topologicalEdgeSort nodes edges) \<and>
         (c \<in> nodeIds nodes \<longrightarrow> length (topologicalEdgeSort nodes edges) < length nodes)"
proof -
  from kahnOrder_inv [OF dist] obtain d' where
    inv: "kahn_inv nodes edges (fst (buildMaps nodes edges)) d' [] (kahnOrder nodes edges)"
    by blast
  from kahn_final_cycle [OF inv cyc] have notin: "c \<notin> set (kahnOrder nodes edges)" by auto
  then have "c \<notin> set (map node_id (topologicalEdgeSort nodes edges))"
    unfolding topologicalEdgeSort_ids by simp
  then have A: "c \<notin> node_id ` set (topologicalEdgeSort nodes edges)" by simp
  have B: "length (topologicalEdgeSort nodes edges) < length nodes" if "c \<in> nodeIds nodes"
  proof -
    from that obtain n where n: "n \<in> set nodes" "node_id n = c" by (auto simp: nodeIds_def)
    with A have "n \<notin> set (topologicalEdgeSort nodes edges)" by auto
    with n(1) topologicalEdgeSort_subset [of nodes edges]
    have "set (topologicalEdgeSort nodes edges) \<subset> set nodes" by blast
    then have "card (set (topologicalEdgeSort nodes edges)) < card (set nodes)"
      by (simp add: psubset_card_mono)
    moreover have "distinct (topologicalEdgeSort nodes edges)"
      using topologicalEdgeSort_distinct_ids [OF dist, of edges] by (simp add: distinct_map)
    moreover from dist have "distinct nodes" by (simp add: distinct_map)
    ultimately show ?thesis by (simp add: distinct_card)
  qed
  from A B show ?thesis by blast
qed

text \<open>C2, amended, on the root feeding the two-node cycle.\<close>

theorem cyclic_nodes_omitted_witness:
  "distinct (map node_id cycleNodes) \<and> (''A'', ''A'') \<in> (depRel cycleEdges)\<^sup>+ \<and>
   ''A'' \<in> nodeIds cycleNodes \<and>
   ''A'' \<notin> node_id ` set (topologicalEdgeSort cycleNodes cycleEdges) \<and>
   length (topologicalEdgeSort cycleNodes cycleEdges) < length cycleNodes"
proof -
  have h: "distinct (map node_id cycleNodes)" by (simp add: cycleNodes_def)
  have "(''A'', ''B'') \<in> depRel cycleEdges" "(''B'', ''A'') \<in> depRel cycleEdges"
    by (simp_all add: depRel_def cycleEdges_def)
  then have c: "(''A'', ''A'') \<in> (depRel cycleEdges)\<^sup>+"
    by (rule trancl_into_trancl [OF r_into_trancl])
  have m: "''A'' \<in> nodeIds cycleNodes" by (simp add: nodeIds_def cycleNodes_def)
  from cyclic_nodes_omitted [OF h c] h c m show ?thesis by simp
qed

section \<open>The ready queue\<close>

text \<open>
  C3, as stated, places the roots without outgoing edge last. On the node list \<open>B, A, C\<close>
  with the single edge from \<open>B\<close> to \<open>C\<close> the code's queue is \<open>A, B\<close>: the root \<open>A\<close>,
  which has no outgoing edge, comes first, where the stated order is \<open>B, A\<close>.
\<close>

theorem ready_queue_counterexample:
  "readyQueueBy arraySort seedNodes seedEdges = [''A'', ''B''] \<and>
   specReadyQueue seedNodes seedEdges = [''B'', ''A'']"
  by code_simp

text \<open>
  C3, amended. The initial ready queue holds exactly the nodes without incoming edge:
  first those without outgoing edge (their \<^verbatim>\<open>findIndex\<close> is -1), in node-list order,
  then those with an outgoing edge, ordered by the position of their first outgoing edge
  in the edge list.
\<close>

theorem ready_queue_order:
  "readyQueueBy arraySort nodes edges =
     map node_id (filter (\<lambda>node. \<not> hasOutgoing edges node) (rootNodes nodes edges)
                  @ sort_key (firstOutIndex edges) (filter (hasOutgoing edges) (rootNodes nodes edges)))"
proof -
  let ?roots = "rootNodes nodes edges"
  have "readyQueueBy arraySort nodes edges = map node_id (sort_key (firstOutIndex edges) ?roots)"
    by (simp add: readyQueueBy_def sourceNodes_roots firstEdgeCompare_key arraySort_key)
  also have "sort_key (firstOutIndex edges) ?roots
      = filter (\<lambda>n. firstOutIndex edges n = - 1) ?roots
        @ sort_key (firstOutIndex edges) (filter (\<lambda>n. firstOutIndex edges n \<noteq> - 1) ?roots)"
  proof (rule sort_key_least_first)
    fix x
    show "- 1 \<le> firstOutIndex edges x"
      using findIndex_bounds [of "\<lambda>edge. source edge = node_id x" edges]
      by (simp add: firstOutIndex_def)
  qed
  finally show ?thesis by (simp add: firstOutIndex_none)
qed

section \<open>Validation of Command nodes\<close>

text \<open>
  C4. Validation is to refuse a Command node with empty command text under the message
  "Command field is required". The filter of \<^verbatim>\<open>onExecute\<close> examines Generate nodes only
  (see \<open>blank_prompt_rejected\<close>), so a single Command node with empty command text
  records no error and the \<^verbatim>\<open>execute_workflow\<close> message is posted.
\<close>

theorem cli_empty_command_not_rejected:
  "nodeErrors (onExecute emptyCommandFlow) = [] \<and>
   posted (onExecute emptyCommandFlow) =
     [execute_workflow (Some \<lparr>data_nodes = Some (flow_nodes emptyCommandFlow),
                              data_edges = Some (flow_edges emptyCommandFlow)\<rparr>)]"
  by (simp add: onExecute_def emptyCommandFlow_def missingPrompt_def)

section \<open>A start request during a run\<close>

text \<open>
  C5, as stated, asks that a start request arriving during a run is refused or cancels
  the earlier run. After two \<^verbatim>\<open>execute_workflow\<close> messages in a row both runs are
  pending and \<^verbatim>\<open>abort()\<close> has not been called.
\<close>

theorem overlapping_runs_counterexample:
  "pendingRuns (onDidReceiveMessage (execute_workflow someGraph)
      (onDidReceiveMessage (execute_workflow someGraph) initialHost)) = [0, 1] \<and>
   abortCalls (onDidReceiveMessage (execute_workflow someGraph)
      (onDidReceiveMessage (execute_workflow someGraph) initialHost)) = []"
  by (simp add: someGraph_def hasGraph_def initialHost_def)

text \<open>
  C5, amended. An \<^verbatim>\<open>execute_workflow\<close> message with a graph that arrives while a run is
  pending is neither refused nor preceded by a cancellation: the handler starts a further
  run under a fresh controller, which replaces \<^verbatim>\<open>activeAbortController\<close>; the earlier runs
  stay pending and no \<^verbatim>\<open>abort()\<close> is called.
\<close>

theorem start_while_active:
  assumes "reachable s" and "hasGraph d" and "pendingRuns s \<noteq> []"
  shows "pendingRuns (onDidReceiveMessage (execute_workflow d) s)
           = pendingRuns s @ [nextController s] \<and>
         nextController s \<notin> set (pendingRuns s) \<and>
         abortCalls (onDidReceiveMessage (execute_workflow d) s) = abortCalls s \<and>
         activeAbortController (onDidReceiveMessage (execute_workflow d) s)
           = Some (nextController s)"
proof -
  from reachable_hostInv [OF assms(1)] have "\<forall>c\<in>set (pendingRuns s). c < nextController s"
    by (simp add: hostInv_def)
  then have "nextController s \<notin> set (pendingRuns s)" by auto
  with assms(2) show ?thesis by simp
qed

text \<open>C5, amended, at the state reached by one \<^verbatim>\<open>execute_workflow\<close> message.\<close>

theorem start_while_active_witness:
  "reachable (onDidReceiveMessage (execute_workflow someGraph) initialHost) \<and>
   hasGraph someGraph \<and>
   pendingRuns (onDidReceiveMessage (execute_workflow someGraph) initialHost) \<noteq> [] \<and>
   pendingRuns (onDidReceiveMessage (execute_workflow someGraph)
      (onDidReceiveMessage (execute_workflow someGraph) initialHost)) = [0, 1] \<and>
   abortCalls (onDidReceiveMessage (execute_workflow someGraph)
      (onDidReceiveMessage (execute_workflow someGraph) initialHost)) = []"
proof -
  let ?s = "onDidReceiveMessage (execute_workflow someGraph) initialHost"
  have r: "reachable ?s" by (rule reachable.message [OF reachable.start])
  have g: "hasGraph someGraph" by (simp add: someGraph_def hasGraph_def)
  have p: "pendingRuns ?s \<noteq> []" by (simp add: g)
  have v: "pendingRuns ?s = [0]" "abortCalls ?s = []" "nextController ?s = 1"
    by (simp_all add: g initialHost_def)
  from start_while_active [OF r g p]
  have "pendingRuns (onDidReceiveMessage (execute_workflow someGraph) ?s)
          = pendingRuns ?s @ [nextController ?s] \<and>
        abortCalls (onDidReceiveMessage (execute_workflow someGraph) ?s) = abortCalls ?s"
    by blast
  then have "pendingRuns (onDidReceiveMessage (execute_workflow someGraph) ?s) = [0, 1] \<and>
        abortCalls (onDidReceiveMessage (execute_workflow someGraph) ?s) = []"
    unfolding v by simp
  with r g p show ?thesis by blast
qed

section \<open>Edge sequence numbers\<close>

text \<open>
  C6. With distinct node ids and distinct edge ids, the numbers of \<^verbatim>\<open>updateEdgeOrder\<close>
  are assigned along the execution order, node by node, each node's outgoing edges in
  edge-list order: the edge at position \<open>i\<close> of that sequence gets the number \<open>i + 1\<close>.
  The numbered edges are pairwise different edges of the edge list, so the numbers are
  distinct, positive and consecutive from 1; no other edge id gets a number; and along
  the numbering the positions of the source nodes in the execution order never decrease.
\<close>

theorem edge_sequence_numbers:
  assumes "distinct (map node_id nodes)" and "distinct (map edge_id edges)"
  shows "distinct (map edge_id (sequencedEdges nodes edges)) \<and>
         set (sequencedEdges nodes edges) \<subseteq> set edges \<and>
         (\<forall>i<length (sequencedEdges nodes edges).
            map_of (updateEdgeOrder nodes edges) (edge_id (sequencedEdges nodes edges ! i))
              = Some (int i + 1)) \<and>
         (\<forall>x. x \<notin> edge_id ` set (sequencedEdges nodes edges) \<longrightarrow>
            map_of (updateEdgeOrder nodes edges) x = None) \<and>
         sorted (map (\<lambda>e. orderIndex (topologicalEdgeSort nodes edges) (source e))
                   (sequencedEdges nodes edges))"
proof -
  let ?order = "topologicalEdgeSort nodes edges"
  let ?es = "sequencedEdges nodes edges"
  have d: "distinct (map node_id ?order)"
    by (rule topologicalEdgeSort_distinct_ids [OF assms(1)])
  have A: "distinct (map edge_id ?es)"
    unfolding sequencedEdges_def by (rule emissionOrder_distinct [OF d assms(2)])
  have B: "set ?es \<subseteq> set edges"
    unfolding sequencedEdges_def by (rule emissionOrder_subset)
  obtain m' k' where f: "fold numberEdge ?es ([], 1) = (m', k')"
    by (cases "fold numberEdge ?es ([], 1)")
  then have m': "updateEdgeOrder nodes edges = m'"
    by (simp add: updateEdgeOrder_fold sequencedEdges_def)
  from fold_numberEdge_distinct [OF A f]
  have C: "\<forall>i<length ?es. map_of (updateEdgeOrder nodes edges) (edge_id (?es ! i)) = Some (int i + 1)"
    and D: "\<forall>x. x \<notin> edge_id ` set ?es \<longrightarrow> map_of (updateEdgeOrder nodes edges) x = None"
    unfolding m' by (simp_all add: add.commute)
  have E: "sorted (map (\<lambda>e. orderIndex ?order (source e)) ?es)"
    unfolding sequencedEdges_def by (rule emissionOrder_sorted [OF d])
  from A B C D E show ?thesis by blast
qed

text \<open>C6 on the diamond: the edges are numbered in edge-list order, the third gets 3.\<close>

theorem edge_sequence_numbers_witness:
  "distinct (map node_id diamondNodes) \<and> distinct (map edge_id diamondEdges) \<and>
   sequencedEdges diamondNodes diamondEdges = diamondEdges \<and>
   map_of (updateEdgeOrder diamondNodes diamondEdges) (edge_id (sequencedEdges diamondNodes diamondEdges ! 2))
     = Some 3"
proof -
  have h1: "distinct (map node_id diamondNodes)" by (simp add: diamondNodes_def)
  have h2: "distinct (map edge_id diamondEdges)" by (simp add: diamondEdges_def)
  have s: "sequencedEdges diamondNodes diamondEdges = diamondEdges" by code_simp
  have l: "(2::nat) < length (sequencedEdges diamondNodes diamondEdges)"
    unfolding s by (simp add: diamondEdges_def)
  from edge_sequence_numbers [OF h1 h2] l
  have "map_of (updateEdgeOrder diamondNodes diamondEdges)
          (edge_id (sequencedEdges diamondNodes diamondEdges ! 2)) = Some (int 2 + 1)"
    by blast
  with h1 h2 s show ?thesis by simp
qed

section \<open>Determinism\<close>

text \<open>
  C7. The sequencer is deterministic. Its only step that the language leaves to the
  runtime is the sort of the ready nodes; whatever two sorts meeting the contract of a
  stable sort the two invocations use, the node order and the edge sequence numbers
  computed from the same node list and edge list are identical.
\<close>

theorem sequencer_deterministic:
  assumes "stableSort srt1" and "stableSort srt2"
  shows "topologicalEdgeSortBy srt1 nodes edges = topologicalEdgeSortBy srt2 nodes edges \<and>
         updateEdgeOrderBy srt1 nodes edges = updateEdgeOrderBy srt2 nodes edges"
proof -
  have "srt1 (firstEdgeCompare edges) xs = srt2 (firstEdgeCompare edges) xs" for xs
    unfolding firstEdgeCompare_key
    by (simp add: stableSort_unique [OF assms(1)] stableSort_unique [OF assms(2)])
  then have "readyQueueBy srt1 nodes edges = readyQueueBy srt2 nodes edges"
    by (simp add: readyQueueBy_def)
  then have "topologicalEdgeSortBy srt1 nodes edges = topologicalEdgeSortBy srt2 nodes edges"
    by (simp add: topologicalEdgeSortBy_def)
  then show ?thesis by (simp add: updateEdgeOrderBy_def)
qed

text \<open>C7 with the insertion sort on the diamond.\<close>

theorem sequencer_deterministic_witness:
  "stableSort (arraySort :: (WorkflowNode \<Rightarrow> WorkflowNode \<Rightarrow> int) \<Rightarrow> _) \<and>
   topologicalEdgeSortBy arraySort diamondNodes diamondEdges = topologicalEdgeSort diamondNodes diamondEdges \<and>
   updateEdgeOrderBy arraySort diamondNodes diamondEdges = updateEdgeOrder diamondNodes diamondEdges"
  using sequencer_deterministic [OF stableSort_arraySort stableSort_arraySort, of diamondNodes diamondEdges]
    stableSort_arraySort
  by (simp add: topologicalEdgeSort_def updateEdgeOrder_def)

section \<open>Cancellation\<close>

text \<open>
  C8, as stated, asks that a cancel request during a run aborts the run's signal. The
  \<^verbatim>\<open>finally\<close> block of a settling run sets \<^verbatim>\<open>activeAbortController\<close> to null whichever
  controller it holds. So when the run of controller 0 settles after a second run was
  started (with or without a cancel request before the second start), the run of
  controller 1 is pending, \<^verbatim>\<open>abort()\<close> has never been called on its controller, and an
  \<^verbatim>\<open>abort_workflow\<close> message changes nothing.
\<close>

theorem abort_during_run_counterexample:
  "reachable overlappedHost \<and>
   pendingRuns overlappedHost = [1] \<and>
   abortCalls overlappedHost = [] \<and>
   onDidReceiveMessage abort_workflow overlappedHost = overlappedHost \<and>
   reachable restartedHost \<and>
   pendingRuns restartedHost = [1] \<and>
   abortCalls restartedHost = [0] \<and>
   onDidReceiveMessage abort_workflow restartedHost = restartedHost"
proof -
  let ?e = "onDidReceiveMessage (execute_workflow someGraph)"
  let ?a = "onDidReceiveMessage abort_workflow"
  have g: "hasGraph someGraph" by (simp add: someGraph_def hasGraph_def)
  have r2: "reachable (?e (?e initialHost))"
    by (intro reachable.message reachable.start)
  have p2: "0 \<in> set (pendingRuns (?e (?e initialHost)))"
    by (simp add: g initialHost_def)
  have A: "reachable overlappedHost"
    unfolding overlappedHost_def by (rule reachable.settled [OF r2 p2])
  have r3: "reachable (?e (?a (?e initialHost)))"
    by (intro reachable.message reachable.start)
  have p3: "0 \<in> set (pendingRuns (?e (?a (?e initialHost))))"
    by (simp add: g initialHost_def)
  have B: "reachable restartedHost"
    unfolding restartedHost_def by (rule reachable.settled [OF r3 p3])
  have C: "pendingRuns overlappedHost = [1]" "abortCalls overlappedHost = []"
    "?a overlappedHost = overlappedHost"
    by (simp_all add: overlappedHost_def g initialHost_def runSettled_def)
  have D: "pendingRuns restartedHost = [1]" "abortCalls restartedHost = [0]"
    "?a restartedHost = restartedHost"
    by (simp_all add: restartedHost_def g initialHost_def runSettled_def)
  from A B C D show ?thesis by blast
qed

text \<open>
  C8, amended. In every state the host can reach, an \<^verbatim>\<open>abort_workflow\<close> message when
  \<^verbatim>\<open>activeAbortController\<close> is null, in particular when no run is pending, changes
  nothing. When \<^verbatim>\<open>activeAbortController\<close> holds a controller, it is the controller of a
  pending run; the message calls \<^verbatim>\<open>abort()\<close> on it, which is then the only such call
  ever made on that controller, and sets \<^verbatim>\<open>activeAbortController\<close> to null; a following
  \<^verbatim>\<open>execute_workflow\<close> message starts a run under a fresh controller that has not been
  aborted. A pending run that has not been cancelled is sure to hold
  \<^verbatim>\<open>activeAbortController\<close> only in the histories where every start request arrives
  when no run is pending.
\<close>

theorem abort_workflow_handler:
  assumes "reachable s"
  shows "(pendingRuns s = [] \<longrightarrow> onDidReceiveMessage abort_workflow s = s) \<and>
         (activeAbortController s = None \<longrightarrow> onDidReceiveMessage abort_workflow s = s) \<and>
         (\<forall>c. activeAbortController s = Some c \<longrightarrow>
            c \<in> set (pendingRuns s) \<and>
            abortCalls (onDidReceiveMessage abort_workflow s) = abortCalls s @ [c] \<and>
            count_list (abortCalls (onDidReceiveMessage abort_workflow s)) c = 1 \<and>
            activeAbortController (onDidReceiveMessage abort_workflow s) = None \<and>
            pendingRuns (onDidReceiveMessage abort_workflow s) = pendingRuns s \<and>
            (\<forall>d. hasGraph d \<longrightarrow>
               activeAbortController (onDidReceiveMessage (execute_workflow d)
                  (onDidReceiveMessage abort_workflow s)) = Some (nextController s) \<and>
               nextController s \<notin> set (abortCalls (onDidReceiveMessage (execute_workflow d)
                  (onDidReceiveMessage abort_workflow s))) \<and>
               nextController s \<in> set (pendingRuns (onDidReceiveMessage (execute_workflow d)
                  (onDidReceiveMessage abort_workflow s))))) \<and>
         (\<forall>c. reachableSingle s \<and> c \<in> set (pendingRuns s) \<and> c \<notin> set (abortCalls s) \<longrightarrow>
            activeAbortController s = Some c)"
proof -
  from reachable_hostInv [OF assms] have inv: "hostInv s" .
  have D: "activeAbortController s = Some c"
    if "reachableSingle s \<and> c \<in> set (pendingRuns s) \<and> c \<notin> set (abortCalls s)" for c
    using that single_run_holds_token [of s c] by blast
  have A: "onDidReceiveMessage abort_workflow s = s" if "pendingRuns s = []"
  proof -
    from inv that have "activeAbortController s = None"
      by (cases "activeAbortController s") (auto simp: hostInv_def)
    then show ?thesis by simp
  qed
  have B: "onDidReceiveMessage abort_workflow s = s" if "activeAbortController s = None"
    using that by simp
  have C: "c \<in> set (pendingRuns s) \<and>
            abortCalls (onDidReceiveMessage abort_workflow s) = abortCalls s @ [c] \<and>
            count_list (abortCalls (onDidReceiveMessage abort_workflow s)) c = 1 \<and>
            activeAbortController (onDidReceiveMessage abort_workflow s) = None \<and>
            pendingRuns (onDidReceiveMessage abort_workflow s) = pendingRuns s \<and>
            (\<forall>d. hasGraph d \<longrightarrow>
               activeAbortController (onDidReceiveMessage (execute_workflow d)
                  (onDidReceiveMessage abort_workflow s)) = Some (nextController s) \<and>
               nextController s \<notin> set (abortCalls (onDidReceiveMessage (execute_workflow d)
                  (onDidReceiveMessage abort_workflow s))) \<and>
               nextController s \<in> set (pendingRuns (onDidReceiveMessage (execute_workflow d)
                  (onDidReceiveMessage abort_workflow s))))"
    if a: "activeAbortController s = Some c" for c
  proof -
    from inv a have c: "c \<notin> set (abortCalls s)" "c \<in> set (pendingRuns s)"
      by (auto simp: hostInv_def)
    from inv c(2) have lt: "c < nextController s" by (auto simp: hostInv_def)
    from inv have "\<forall>x\<in>set (abortCalls s). x < nextController s" by (simp add: hostInv_def)
    then have fresh: "nextController s \<notin> set (abortCalls s)" by auto
    from c(1) have "count_list (abortCalls s) c = 0" by simp
    with a lt fresh c(2) show ?thesis by simp
  qed
  from A B C D show ?thesis by blast
qed

text \<open>C8, amended, at the initial state and at the state reached by one \<^verbatim>\<open>execute_workflow\<close> message.\<close>

theorem abort_workflow_handler_witness:
  "reachable initialHost \<and>
   onDidReceiveMessage abort_workflow initialHost = initialHost \<and>
   reachable (onDidReceiveMessage (execute_workflow someGraph) initialHost) \<and>
   activeAbortController (onDidReceiveMessage (execute_workflow someGraph) initialHost) = Some 0 \<and>
   abortCalls (onDidReceiveMessage abort_workflow
      (onDidReceiveMessage (execute_workflow someGraph) initialHost)) = [0] \<and>
   activeAbortController (onDidReceiveMessage abort_workflow
      (onDidReceiveMessage (execute_workflow someGraph) initialHost)) = None \<and>
   reachableSingle (onDidReceiveMessage (execute_workflow someGraph) initialHost) \<and>
   0 \<in> set (pendingRuns (onDidReceiveMessage (execute_workflow someGraph) initialHost))"
proof -
  let ?s = "onDidReceiveMessage (execute_workflow someGraph) initialHost"
  have "isExecute (execute_workflow someGraph) \<longrightarrow> pendingRuns initialHost = []"
    by (simp add: initialHost_def)
  then have rs: "reachableSingle ?s"
    by (rule reachableSingle.single_message [OF reachableSingle.single_start])
  have r0: "reachable initialHost" by (rule reachable.start)
  have p0: "pendingRuns initialHost = []" by (simp add: initialHost_def)
  have r: "reachable ?s" by (rule reachable.message [OF reachable.start])
  have g: "hasGraph someGraph" by (simp add: someGraph_def hasGraph_def)
  have a: "activeAbortController ?s = Some 0" "abortCalls ?s = []"
    "0 \<in> set (pendingRuns ?s)"
    by (simp_all add: g initialHost_def)
  from abort_workflow_handler [OF r0] p0
  have n: "onDidReceiveMessage abort_workflow initialHost = initialHost" by blast
  from abort_workflow_handler [OF r] a(1)
  have "abortCalls (onDidReceiveMessage abort_workflow ?s) = abortCalls ?s @ [0] \<and>
        activeAbortController (onDidReceiveMessage abort_workflow ?s) = None" by blast
  with r0 n r a rs show ?thesis by simp
qed

section \<open>The returned order has no duplicates\<close>

text \<open>
  C9. For a node list with distinct ids and any edge list, cyclic or dangling, the list
  returned by \<^verbatim>\<open>topologicalEdgeSort\<close> contains no node twice (not even two nodes of one
  id) and only nodes of the input; it is empty when there are no nodes; and for an
  acyclic graph it is a permutation of the node list.
\<close>

theorem order_is_duplicate_free_sublist:
  assumes dist: "distinct (map node_id nodes)"
  shows "distinct (map node_id (topologicalEdgeSort nodes edges)) \<and>
         distinct (topologicalEdgeSort nodes edges) \<and>
         set (topologicalEdgeSort nodes edges) \<subseteq> set nodes \<and>
         (nodes = [] \<longrightarrow> topologicalEdgeSort nodes edges = []) \<and>
         (acyclicGraph nodes edges \<longrightarrow> mset (topologicalEdgeSort nodes edges) = mset nodes)"
proof -
  have d1: "distinct (map node_id (topologicalEdgeSort nodes edges))"
    by (rule topologicalEdgeSort_distinct_ids [OF dist])
  then have d2: "distinct (topologicalEdgeSort nodes edges)" by (simp add: distinct_map)
  have sub: "set (topologicalEdgeSort nodes edges) \<subseteq> set nodes"
    by (rule topologicalEdgeSort_subset)
  then have emp: "nodes = [] \<longrightarrow> topologicalEdgeSort nodes edges = []" by auto
  have perm: "mset (topologicalEdgeSort nodes edges) = mset nodes" if g: "acyclicGraph nodes edges"
  proof -
    from topologicalEdgeSort_complete [OF g] sub
    have "set (topologicalEdgeSort nodes edges) = set nodes" by blast
    moreover from dist have "distinct nodes" by (simp add: distinct_map)
    ultimately show ?thesis using d2 by (simp add: set_eq_iff_mset_eq_distinct)
  qed
  from d1 d2 sub emp perm show ?thesis by blast
qed

text \<open>C9 on the diamond and on the empty graph.\<close>

theorem order_is_duplicate_free_sublist_witness:
  "distinct (map node_id diamondNodes) \<and>
   acyclicGraph diamondNodes diamondEdges \<and>
   distinct (topologicalEdgeSort diamondNodes diamondEdges) \<and>
   set (topologicalEdgeSort diamondNodes diamondEdges) \<subseteq> set diamondNodes \<and>
   mset (topologicalEdgeSort diamondNodes diamondEdges) = mset diamondNodes \<and>
   topologicalEdgeSort [] [] = []"
proof -
  have h: "distinct (map node_id diamondNodes)" by (simp add: diamondNodes_def)
  have e: "distinct (map node_id ([] :: WorkflowNode list))" by simp
  from order_is_duplicate_free_sublist [OF h, of diamondEdges]
    order_is_duplicate_free_sublist [OF e, of "[]"] h diamond_acyclic
  show ?thesis by simp
qed

section \<open>Order numbers handed to rendering\<close>

text \<open>
  C10. \<^verbatim>\<open>edgesWithOrder\<close> hands over every edge with its id and end points and an
  \<^verbatim>\<open>orderNumber\<close>: the assigned sequence number, which is at least 1, when the edge id
  has one in the map computed by \<^verbatim>\<open>updateEdgeOrder\<close> (for any node list and edge list,
  the empty ones giving the initial empty map), and 0 when it has none. So 0 is never an
  assigned number.
\<close>

theorem rendered_order_numbers:
  "length (edgesWithOrder edges (updateEdgeOrder ns es)) = length edges \<and>
   (\<forall>i<length edges.
      edge_id (edgesWithOrder edges (updateEdgeOrder ns es) ! i) = edge_id (edges ! i) \<and>
      source (edgesWithOrder edges (updateEdgeOrder ns es) ! i) = source (edges ! i) \<and>
      target (edgesWithOrder edges (updateEdgeOrder ns es) ! i) = target (edges ! i) \<and>
      (case map_of (updateEdgeOrder ns es) (edge_id (edges ! i)) of
         Some k \<Rightarrow> 1 \<le> k \<and> orderNumber (edgesWithOrder edges (updateEdgeOrder ns es) ! i) = k
       | None \<Rightarrow> orderNumber (edgesWithOrder edges (updateEdgeOrder ns es) ! i) = 0))"
proof -
  have "1 \<le> k \<and> getOr0 (updateEdgeOrder ns es) x = k"
    if "map_of (updateEdgeOrder ns es) x = Some k" for x k
    using that updateEdgeOrder_positive [of ns es x k] by (simp add: getOr0_def)
  moreover have "getOr0 (updateEdgeOrder ns es) x = 0"
    if "map_of (updateEdgeOrder ns es) x = None" for x
    using that by (simp add: getOr0_def)
  ultimately show ?thesis by (simp add: edgesWithOrder_def split: option.splits)
qed

text \<open>
  C10 on the root feeding a cycle: the first edge has the number 1; the second, whose
  source never enters the order, gets 0.
\<close>

theorem rendered_order_numbers_witness:
  "(1::nat) < length cycleEdges \<and>
   map_of (updateEdgeOrder cycleNodes cycleEdges) (edge_id (cycleEdges ! 0)) = Some 1 \<and>
   orderNumber (edgesWithOrder cycleEdges (updateEdgeOrder cycleNodes cycleEdges) ! 0) = 1 \<and>
   map_of (updateEdgeOrder cycleNodes cycleEdges) (edge_id (cycleEdges ! 1)) = None \<and>
   orderNumber (edgesWithOrder cycleEdges (updateEdgeOrder cycleNodes cycleEdges) ! 1) = 0"
proof -
  have l: "(1::nat) < length cycleEdges" "(0::nat) < length cycleEdges" by (simp_all add: cycleEdges_def)
  have m0: "map_of (updateEdgeOrder cycleNodes cycleEdges) (edge_id (cycleEdges ! 0)) = Some 1"
    by code_simp
  have m1: "map_of (updateEdgeOrder cycleNodes cycleEdges) (edge_id (cycleEdges ! 1)) = None"
    by code_simp
  from rendered_order_numbers [of cycleEdges cycleNodes cycleEdges] l m0 m1
  show ?thesis by (auto split: option.splits)
qed

end
